theory Spec2Isabelle
  imports Main "HOL-Library.Word"
begin

unbundle bit_operations_syntax

section \<open>C strings\<close>

text \<open>
  A \<open>const char *\<close> is modelled by the list of the bytes stored from the pointer
  onward.  The string it denotes ends at the first NUL byte; a list without a NUL byte
  is read up to its end (the terminator is then the byte that follows the list).
\<close>

definition NUL :: char where
  "NUL = CHR 0x00"

definition cstr :: "char list \<Rightarrow> string" where
  "cstr s = takeWhile (\<lambda>c. c \<noteq> NUL) s"

definition strlen :: "char list \<Rightarrow> nat" where
  "strlen s = length (cstr s)"

section \<open>ce\_types.h\<close>

definition MAX_TOKENS :: nat where
  "MAX_TOKENS = 8"

definition MAX_ARG_CONTENT_SIZE :: nat where
  "MAX_ARG_CONTENT_SIZE = 64"

definition MAX_LINE_BUF_SIZE :: nat where
  "MAX_LINE_BUF_SIZE = 256"

section \<open>ce\_hash.c\<close>

text \<open>
  The value of a plain \<open>char\<close>.  Whether plain \<open>char\<close> is signed is fixed by the
  target (signed on the x86 hosts that run the unit tests, unsigned on the ARM targets
  of the CMake files), so the signedness is a parameter: a signed \<open>char\<close> holding
  the byte \<open>b \<ge> 128\<close> has the value \<open>b - 256\<close>.
\<close>

definition char_value :: "bool \<Rightarrow> char \<Rightarrow> int" where
  "char_value char_signed c =
     (if char_signed \<and> 128 \<le> (of_char c :: nat) then int (of_char c) - 256
      else int (of_char c))"

text \<open>\<open>(uint32_t)c\<close>: the value of \<open>c\<close> modulo \<open>2 ^ 32\<close>.\<close>

definition char_to_u32 :: "bool \<Rightarrow> char \<Rightarrow> 32 word" where
  "char_to_u32 char_signed c = word_of_int (char_value char_signed c)"

definition DJB2_INIT_HASH :: "32 word" where
  "DJB2_INIT_HASH = 5381"

definition DJB2_HASH_SHIFT :: nat where
  "DJB2_HASH_SHIFT = 5"

text \<open>The \<open>while ((c = *str++) != '\0')\<close> loop of \<open>ce_hash_calculate\<close>.\<close>

fun hash_loop :: "bool \<Rightarrow> 32 word \<Rightarrow> char list \<Rightarrow> 32 word" where
  "hash_loop char_signed hash [] = hash"
| "hash_loop char_signed hash (c # str) =
     (if c = NUL then hash
      else hash_loop char_signed
             ((push_bit DJB2_HASH_SHIFT hash + hash) + char_to_u32 char_signed c) str)"

text \<open>\<open>ce_hash_calculate\<close>; \<open>None\<close> is the NULL pointer.\<close>

definition ce_hash_calculate :: "bool \<Rightarrow> char list option \<Rightarrow> 32 word" where
  "ce_hash_calculate char_signed str =
     (case str of None \<Rightarrow> 0 | Some s \<Rightarrow> hash_loop char_signed DJB2_INIT_HASH s)"

text \<open>
  The digest as the specification words it: seed 5381, per byte
  \<open>hash = hash * 33 + byte\<close> modulo \<open>2 ^ 32\<close>, on the byte values \<open>0 .. 255\<close>.
\<close>

fun djb2_spec :: "nat \<Rightarrow> nat list \<Rightarrow> nat" where
  "djb2_spec h [] = h"
| "djb2_spec h (b # bs) = djb2_spec ((h * 33 + b) mod 2 ^ 32) bs"

definition djb2 :: "string \<Rightarrow> nat" where
  "djb2 s = djb2_spec 5381 (map of_char s)"

section \<open>parser\_utils.c\<close>

text \<open>
  Characters are compared through their byte value.  Every comparison of the source is
  a range test between two ASCII constants, and such a test gives the same answer for a
  signed and for an unsigned \<open>char\<close>.
\<close>

definition char_in_range :: "char \<Rightarrow> char \<Rightarrow> char \<Rightarrow> bool" where
  "char_in_range lo c hi \<longleftrightarrow> (of_char lo :: nat) \<le> of_char c \<and> (of_char c :: nat) \<le> of_char hi"

text \<open>\<open>*s\<close>, \<open>'\0' == *s\<close> and \<open>++s\<close> on a string pointer.\<close>

definition peek :: "char list \<Rightarrow> char" where
  "peek s = (case s of [] \<Rightarrow> NUL | c # _ \<Rightarrow> c)"

definition at_end :: "char list \<Rightarrow> bool" where
  "at_end s \<longleftrightarrow> peek s = NUL"

definition ascii_tolower :: "char \<Rightarrow> char" where
  "ascii_tolower c =
     (if char_in_range (CHR ''A'') c (CHR ''Z'')
      then char_of ((of_char c :: nat) + (of_char (CHR ''a'') - of_char (CHR ''A'')))
      else c)"

text \<open>
  \<open>ascii_to_digit\<close> and \<open>ascii_to_hex\<close> are static and always called with the address of
  a local; \<open>None\<close> is their \<open>return false\<close>, \<open>Some d\<close> the value stored through \<open>out\<close>.
\<close>

definition ascii_to_digit :: "char \<Rightarrow> 8 word option" where
  "ascii_to_digit c =
     (if char_in_range (CHR ''0'') c (CHR ''9'')
      then Some (of_nat ((of_char c :: nat) - of_char (CHR ''0'')))
      else None)"

definition ascii_to_hex :: "char \<Rightarrow> 8 word option" where
  "ascii_to_hex c =
     (let lower = ascii_tolower c in
      if char_in_range (CHR ''0'') lower (CHR ''9'')
      then Some (of_nat ((of_char lower :: nat) - of_char (CHR ''0'')))
      else if char_in_range (CHR ''a'') lower (CHR ''f'')
      then Some (10 + of_nat ((of_char lower :: nat) - of_char (CHR ''a'')))
      else None)"

subsection \<open>Integer parsers\<close>

text \<open>
  The digit loop.  The six loops of \<open>parse_u8\<close>, \<open>parse_u16\<close>, \<open>parse_u32\<close>, \<open>parse_u64\<close>,
  \<open>parse_i32\<close> and \<open>parse_i64\<close> have the same body and differ in the width of the
  accumulator \<open>value\<close> and in the bound (\<open>UINT8_MAX\<close>, ..., \<open>max_before_mul\<close>), which are
  the type parameter and the first argument here.  All arithmetic is that of the
  accumulator's unsigned type and wraps.  \<open>None\<close> is \<open>return false\<close> inside the loop.
\<close>

fun digits_loop :: "'a::len word \<Rightarrow> char list \<Rightarrow> 'a word \<Rightarrow> 'a word option" where
  "digits_loop bound [] val = Some val"
| "digits_loop bound (c # s) val =
     (if c = NUL then Some val
      else case ascii_to_digit c of
        None \<Rightarrow> None
      | Some digit \<Rightarrow>
          if val > bound div 10 then None
          else if ucast digit > bound - val * 10 then None
          else digits_loop bound s (val * 10 + ucast digit))"

definition UINT8_MAX :: "32 word" where "UINT8_MAX = 255"
definition UINT16_MAX :: "32 word" where "UINT16_MAX = 65535"
definition UINT32_MAX :: "64 word" where "UINT32_MAX = 4294967295"
definition UINT64_MAX :: "64 word" where "UINT64_MAX = 18446744073709551615"
definition INT32_MAX :: "32 word" where "INT32_MAX = 2147483647"
definition INT64_MAX :: "64 word" where "INT64_MAX = 9223372036854775807"

text \<open>
  A parser \<open>bool parse_T(const char *s, T *out)\<close> takes the string (\<open>None\<close> for NULL) and
  the cell \<open>out\<close> points to (\<open>None\<close> for NULL, else its content before the call); it returns
  the returned \<open>bool\<close> and the content of the cell after the call.
\<close>

definition parse_u8 :: "char list option \<Rightarrow> 8 word option \<Rightarrow> bool \<times> 8 word option" where
  "parse_u8 s out =
     (case (s, out) of
        (Some s, Some _) \<Rightarrow>
          if at_end s then (False, out)
          else (case digits_loop UINT8_MAX s 0 of
                  None \<Rightarrow> (False, out)
                | Some val \<Rightarrow> (True, Some (ucast val)))
      | _ \<Rightarrow> (False, out))"

definition parse_u16 :: "char list option \<Rightarrow> 16 word option \<Rightarrow> bool \<times> 16 word option" where
  "parse_u16 s out =
     (case (s, out) of
        (Some s, Some _) \<Rightarrow>
          if at_end s then (False, out)
          else (case digits_loop UINT16_MAX s 0 of
                  None \<Rightarrow> (False, out)
                | Some val \<Rightarrow> (True, Some (ucast val)))
      | _ \<Rightarrow> (False, out))"

definition parse_u32 :: "char list option \<Rightarrow> 32 word option \<Rightarrow> bool \<times> 32 word option" where
  "parse_u32 s out =
     (case (s, out) of
        (Some s, Some _) \<Rightarrow>
          if at_end s then (False, out)
          else (case digits_loop UINT32_MAX s 0 of
                  None \<Rightarrow> (False, out)
                | Some val \<Rightarrow> (True, Some (ucast val)))
      | _ \<Rightarrow> (False, out))"

definition parse_u64 :: "char list option \<Rightarrow> 64 word option \<Rightarrow> bool \<times> 64 word option" where
  "parse_u64 s out =
     (case (s, out) of
        (Some s, Some _) \<Rightarrow>
          if at_end s then (False, out)
          else (case digits_loop UINT64_MAX s 0 of
                  None \<Rightarrow> (False, out)
                | Some val \<Rightarrow> (True, Some val))
      | _ \<Rightarrow> (False, out))"

text \<open>
  The signed results are words read with \<open>sint\<close>.  \<open>(int32_t)value\<close> keeps the bits and
  the unary minus is the two's-complement one, which is what the unit tests expect of
  \<open>parse_i32("-2147483648")\<close>.
\<close>

definition parse_i32 :: "char list option \<Rightarrow> 32 word option \<Rightarrow> bool \<times> 32 word option" where
  "parse_i32 s out =
     (case (s, out) of
        (Some s, Some _) \<Rightarrow>
          let negative = (peek s = CHR ''-'');
              s = (if peek s = CHR ''-'' then tl s
                   else if peek s = CHR ''+'' then tl s
                   else s)
          in if at_end s then (False, out)
             else (case digits_loop (if negative then INT32_MAX + 1 else INT32_MAX) s 0 of
                     None \<Rightarrow> (False, out)
                   | Some val \<Rightarrow> (True, Some (if negative then - val else val)))
      | _ \<Rightarrow> (False, out))"

definition parse_i64 :: "char list option \<Rightarrow> 64 word option \<Rightarrow> bool \<times> 64 word option" where
  "parse_i64 s out =
     (case (s, out) of
        (Some s, Some _) \<Rightarrow>
          let negative = (peek s = CHR ''-'');
              s = (if peek s = CHR ''-'' then tl s
                   else if peek s = CHR ''+'' then tl s
                   else s)
          in if at_end s then (False, out)
             else (case digits_loop (if negative then INT64_MAX + 1 else INT64_MAX) s 0 of
                     None \<Rightarrow> (False, out)
                   | Some val \<Rightarrow> (True, Some (if negative then - val else val)))
      | _ \<Rightarrow> (False, out))"

definition INT8_MIN :: int where "INT8_MIN = - 128"
definition INT8_MAX :: int where "INT8_MAX = 127"
definition INT16_MIN :: int where "INT16_MIN = - 32768"
definition INT16_MAX :: int where "INT16_MAX = 32767"

definition parse_i8 :: "char list option \<Rightarrow> 8 word option \<Rightarrow> bool \<times> 8 word option" where
  "parse_i8 s out =
     (case (s, out) of
        (Some _, Some _) \<Rightarrow>
          (case parse_i32 s (Some 0) of
             (True, Some tmp) \<Rightarrow>
               if sint tmp < INT8_MIN \<or> sint tmp > INT8_MAX then (False, out)
               else (True, Some (ucast tmp))
           | _ \<Rightarrow> (False, out))
      | _ \<Rightarrow> (False, out))"

definition parse_i16 :: "char list option \<Rightarrow> 16 word option \<Rightarrow> bool \<times> 16 word option" where
  "parse_i16 s out =
     (case (s, out) of
        (Some _, Some _) \<Rightarrow>
          (case parse_i32 s (Some 0) of
             (True, Some tmp) \<Rightarrow>
               if sint tmp < INT16_MIN \<or> sint tmp > INT16_MAX then (False, out)
               else (True, Some (ucast tmp))
           | _ \<Rightarrow> (False, out))
      | _ \<Rightarrow> (False, out))"

subsection \<open>Boolean parser\<close>

text \<open>
  The loop \<open>for (i = 0; lit[i] != '\0'; ++i) if (ascii_tolower(token[i]) != lit[i]) break;\<close>
  returns the final \<open>i\<close>.  The literal is given without its terminator, so
  \<open>lit[i] != '\0'\<close> is \<open>i < length lit\<close>; \<open>token[i]\<close> is read at or before the token's
  terminator, because a NUL in the token differs from every character of the literal.
\<close>

function literal_loop :: "string \<Rightarrow> char list \<Rightarrow> nat \<Rightarrow> nat" where
  "literal_loop lit token i =
     (if i < length lit
      then (if ascii_tolower (peek (drop i token)) \<noteq> lit ! i then i
            else literal_loop lit token (i + 1))
      else i)"
  by pat_completeness auto
termination
  by (relation "measure (\<lambda>(lit, token, i). length lit - i)") auto

declare literal_loop.simps [simp del]

definition parse_boolean_token :: "char list option \<Rightarrow> bool option \<Rightarrow> bool \<times> bool option" where
  "parse_boolean_token token out_b =
     (case (token, out_b) of
        (Some token, Some _) \<Rightarrow>
          let i = literal_loop ''true'' token 0 in
          if i = length ''true'' \<and> peek (drop i token) = NUL then (True, Some True)
          else
            let i = literal_loop ''false'' token 0 in
            if i = length ''false'' \<and> peek (drop i token) = NUL then (True, Some False)
            else if cstr token = ''1'' then (True, Some True)
            else if cstr token = ''0'' then (True, Some False)
            else (False, out_b)
      | _ \<Rightarrow> (False, out_b))"

subsection \<open>Hex string parser\<close>

text \<open>
  Byte memory is a function from addresses to bytes; \<open>out_buf\<close> is an address into it
  (\<open>None\<close> for NULL).  \<open>size_t\<close> values are lengths of strings held in memory and are
  natural numbers.  The conversion loop writes \<open>out_buf[i]\<close> as soon as pair \<open>i\<close> is
  decoded and returns the memory it has reached, also when a later pair is rejected.
\<close>

type_synonym byte_memory = "nat \<Rightarrow> 8 word"

function hex_loop ::
  "char list \<Rightarrow> nat \<Rightarrow> nat \<Rightarrow> byte_memory \<Rightarrow> nat \<Rightarrow> bool \<times> byte_memory" where
  "hex_loop s len i mem out_buf =
     (if i < len div 2 then
        (case ascii_to_hex (s ! (i * 2)) of
           None \<Rightarrow> (False, mem)
         | Some hi \<Rightarrow>
             (case ascii_to_hex (s ! (i * 2 + 1)) of
                None \<Rightarrow> (False, mem)
              | Some lo \<Rightarrow>
                  hex_loop s len (i + 1) (mem(out_buf + i := push_bit 4 hi OR lo)) out_buf))
      else (True, mem))"
  by pat_completeness auto
termination
  by (relation "measure (\<lambda>(s, len, i, mem, out_buf). len div 2 - i)") auto

declare hex_loop.simps [simp del]

text \<open>
  \<open>parse_hex_string\<close> returns the returned \<open>bool\<close>, the memory after the call and the
  content of \<open>*out_len\<close> after the call.
\<close>

definition parse_hex_string ::
  "char list option \<Rightarrow> byte_memory \<Rightarrow> nat option \<Rightarrow> nat \<Rightarrow> nat option
     \<Rightarrow> bool \<times> byte_memory \<times> nat option" where
  "parse_hex_string s mem out_buf max_len out_len =
     (case (s, out_buf, out_len) of
        (Some s, Some buf, Some _) \<Rightarrow>
          let len = strlen s in
          if len = 0 then (False, mem, out_len)
          else if len mod 2 \<noteq> 0 then (False, mem, out_len)
          else if len div 2 > max_len then (False, mem, out_len)
          else (case hex_loop s len 0 mem buf of
                  (False, mem') \<Rightarrow> (False, mem', out_len)
                | (True, mem') \<Rightarrow> (True, mem', Some (len div 2)))
      | _ \<Rightarrow> (False, mem, out_len))"

text \<open>
  The number of stores through \<open>out_buf\<close> that the conversion loop makes from pair \<open>i\<close> on:
  it stores \<open>out_buf[i]\<close> once both characters of pair \<open>i\<close> are converted and returns at
  the first pair with a character that is not.  \<open>hex_stores\<close> is that number for a whole
  call of \<open>parse_hex_string\<close>, which stores nothing when it returns before the loop; the
  bytes it stores are \<open>out_buf[0]\<close> to \<open>out_buf[hex_stores s max_len - 1]\<close>.
\<close>

function hex_loop_stores :: "char list \<Rightarrow> nat \<Rightarrow> nat \<Rightarrow> nat" where
  "hex_loop_stores s len i =
     (if i < len div 2 then
        (case ascii_to_hex (s ! (i * 2)) of
           None \<Rightarrow> 0
         | Some hi \<Rightarrow>
             (case ascii_to_hex (s ! (i * 2 + 1)) of
                None \<Rightarrow> 0
              | Some lo \<Rightarrow> 1 + hex_loop_stores s len (i + 1)))
      else 0)"
  by pat_completeness auto
termination
  by (relation "measure (\<lambda>(s, len, i). len div 2 - i)") auto

declare hex_loop_stores.simps [simp del]

definition hex_stores :: "char list option \<Rightarrow> nat \<Rightarrow> nat" where
  "hex_stores s max_len =
     (case s of
        None \<Rightarrow> 0
      | Some s \<Rightarrow>
          let len = strlen s in
          if len = 0 then 0
          else if len mod 2 \<noteq> 0 then 0
          else if len div 2 > max_len then 0
          else hex_loop_stores s len 0)"

section \<open>ce\_types.h: argument types, values and signatures\<close>

datatype ce_arg_type_et =
    TYPE_UINT8_e | TYPE_UINT16_e | TYPE_UINT32_e | TYPE_UINT64_e
  | TYPE_INT8_e | TYPE_INT16_e | TYPE_INT32_e | TYPE_INT64_e
  | TYPE_BOOL_e | TYPE_STRING_e | TYPE_UINT8_PTR_e

text \<open>
  The union \<open>ce_arg_value_ut\<close>, with the member that was written last.  \<open>ARG_ZERO\<close> is the
  zero-initialised union of \<open>args_a[MAX_TOKENS] = {0}\<close>.  \<open>str_cp\<close> is an offset into the
  line buffer, \<open>bytes_u8p\<close> an offset from \<open>scratch.buffer\<close>.
\<close>

datatype ce_arg_value_ut =
    ARG_ZERO
  | ARG_u8 "8 word" | ARG_u16 "16 word" | ARG_u32 "32 word" | ARG_u64 "64 word"
  | ARG_i8 "8 word" | ARG_i16 "16 word" | ARG_i32 "32 word" | ARG_i64 "64 word"
  | ARG_b bool
  | ARG_str_cp nat
  | ARG_bytes_u8p nat

record ce_signature_st =
  hash_u32 :: "32 word"
  handler :: nat
  types_e :: "ce_arg_type_et list"
  type_count_u8 :: "8 word"

section \<open>ce\_dispatch.c\<close>

text \<open>
  \<open>scratch_buffer_st\<close>: the array \<open>buffer[MAX_ARG_CONTENT_SIZE]\<close> and the member \<open>used\<close> that
  follows it.  A pointer into the array is an offset from \<open>buffer[0]\<close>.  \<open>parse_hex_string\<close>
  works on byte memory: \<open>array_memory\<close> is the memory whose cells below the length of the
  array are the array, and \<open>memory_array\<close> reads the array back.  Nothing reads the cells
  from the length of the array on, and a call that would store to one of them ends the
  run (\<open>E_STORE_OUT_OF_BOUNDS\<close> below), so that their content is never used.
\<close>

record scratch_buffer_st =
  buffer :: "8 word list"
  used :: nat

definition array_memory :: "8 word list \<Rightarrow> byte_memory" where
  "array_memory a = (\<lambda>i. if i < length a then a ! i else 0)"

definition memory_array :: "byte_memory \<Rightarrow> nat \<Rightarrow> 8 word list" where
  "memory_array mem n = map mem [0..<n]"

definition IS_WHITESPACE :: "char \<Rightarrow> bool" where
  "IS_WHITESPACE c \<longleftrightarrow> c = CHR '' '' \<or> c = CHR 0x09 \<or> c = CHR 0x0D \<or> c = CHR 0x0A"

definition ARG_OFFSET :: nat where
  "ARG_OFFSET = 1"

definition MAX_PARSABLE_ARGUMENTS :: nat where
  "MAX_PARSABLE_ARGUMENTS = MAX_TOKENS - ARG_OFFSET"

text \<open>
  One value per \<open>return false\<close> of the dispatcher, named after the message it logs.
  \<open>E_OUT_OF_BOUNDS\<close> stands for a read outside \<open>tokens_ca[]\<close> or \<open>sig_pst->types_e[]\<close>, which
  the source does not check and which is undefined in C.  \<open>E_STORE_OUT_OF_BOUNDS n\<close> is no
  return either: it stands for a call of \<open>parse_hex_string\<close> that stores behind the array
  \<open>scratch.buffer\<close>, the last of its stores being to \<open>scratch.buffer[n]\<close> with \<open>n\<close> not below
  \<open>MAX_ARG_CONTENT_SIZE\<close>.  C gives the run no meaning from the first such store on (in
  the structure the member \<open>used\<close> is what follows the array).  The run is followed up to
  that call and no further: what is reported with it is the state in which the call is
  made.  A function that returns \<open>bool\<close> returns \<open>Inl\<close> of the cause for \<open>false\<close> and \<open>Inr\<close>
  for \<open>true\<close>.
\<close>

datatype ce_error =
    E_NULL_POINTER
  | E_LINE_TRUNCATED
  | E_TOO_MANY_TOKENS
  | E_NO_COMMAND
  | E_UNKNOWN_COMMAND
  | E_ARG_COUNT_MISMATCH
  | E_TOO_MANY_ARGUMENTS
  | E_MISSING_ARGUMENT nat
  | E_ARG_PARSE nat
  | E_INVOKE_FAILED
  | E_OUT_OF_BOUNDS
  | E_STORE_OUT_OF_BOUNDS nat

definition validate_argument_count ::
  "nat \<Rightarrow> ce_signature_st option \<Rightarrow> ce_error + unit" where
  "validate_argument_count tokens_count sig_pst =
     (case sig_pst of
        None \<Rightarrow> Inl E_NULL_POINTER
      | Some sig \<Rightarrow>
          let arg_count = (if tokens_count > 0 then tokens_count - 1 else 0) in
          if arg_count \<noteq> unat (type_count_u8 sig) then Inl E_ARG_COUNT_MISMATCH
          else Inr ())"

text \<open>
  \<open>parse_value_by_type\<close>.  \<open>line\<close> is the memory the token pointer points into and
  \<open>token_cp\<close> the pointer (\<open>None\<close> for NULL); \<open>out_val\<close> is the content of \<open>*out_val_p\<close> and
  \<open>scratch\<close> that of \<open>*scratch\<close>, both always given by the caller as addresses of its own
  objects.  The result is the returned \<open>bool\<close> (\<open>Inr\<close>) with the two contents after the
  call.  A binary argument is decoded to \<open>scratch->buffer + scratch->used\<close> with the maximum
  \<open>MAX_ARG_CONTENT_SIZE\<close>: \<open>parse_hex_string\<close> stores \<open>hex_stores\<close> bytes from that offset
  on, and when the last of them is behind the array the result is \<open>E_STORE_OUT_OF_BOUNDS\<close>
  with the offset of that last store.  Otherwise the pointer of the
  argument and the new \<open>used\<close> are taken from \<open>*scratch\<close> as it is after the call of
  \<open>parse_hex_string\<close>.  The enumeration is closed, so the \<open>default\<close> branch of the \<open>switch\<close>
  has no input.
\<close>

definition parse_value_by_type ::
  "ce_arg_type_et \<Rightarrow> char list \<Rightarrow> nat option \<Rightarrow> ce_arg_value_ut \<Rightarrow> scratch_buffer_st
     \<Rightarrow> (ce_error + bool) \<times> ce_arg_value_ut \<times> scratch_buffer_st" where
  "parse_value_by_type type_e line token_cp out_val scratch =
     (case token_cp of
        None \<Rightarrow> (Inr False, out_val, scratch)
      | Some p \<Rightarrow>
          let token = Some (drop p line) in
          (case type_e of
             TYPE_UINT8_e \<Rightarrow>
               (case parse_u8 token (Some 0) of
                  (True, Some v) \<Rightarrow> (Inr True, ARG_u8 v, scratch)
                | _ \<Rightarrow> (Inr False, out_val, scratch))
           | TYPE_UINT16_e \<Rightarrow>
               (case parse_u16 token (Some 0) of
                  (True, Some v) \<Rightarrow> (Inr True, ARG_u16 v, scratch)
                | _ \<Rightarrow> (Inr False, out_val, scratch))
           | TYPE_UINT32_e \<Rightarrow>
               (case parse_u32 token (Some 0) of
                  (True, Some v) \<Rightarrow> (Inr True, ARG_u32 v, scratch)
                | _ \<Rightarrow> (Inr False, out_val, scratch))
           | TYPE_UINT64_e \<Rightarrow>
               (case parse_u64 token (Some 0) of
                  (True, Some v) \<Rightarrow> (Inr True, ARG_u64 v, scratch)
                | _ \<Rightarrow> (Inr False, out_val, scratch))
           | TYPE_INT8_e \<Rightarrow>
               (case parse_i8 token (Some 0) of
                  (True, Some v) \<Rightarrow> (Inr True, ARG_i8 v, scratch)
                | _ \<Rightarrow> (Inr False, out_val, scratch))
           | TYPE_INT16_e \<Rightarrow>
               (case parse_i16 token (Some 0) of
                  (True, Some v) \<Rightarrow> (Inr True, ARG_i16 v, scratch)
                | _ \<Rightarrow> (Inr False, out_val, scratch))
           | TYPE_INT32_e \<Rightarrow>
               (case parse_i32 token (Some 0) of
                  (True, Some v) \<Rightarrow> (Inr True, ARG_i32 v, scratch)
                | _ \<Rightarrow> (Inr False, out_val, scratch))
           | TYPE_INT64_e \<Rightarrow>
               (case parse_i64 token (Some 0) of
                  (True, Some v) \<Rightarrow> (Inr True, ARG_i64 v, scratch)
                | _ \<Rightarrow> (Inr False, out_val, scratch))
           | TYPE_BOOL_e \<Rightarrow>
               (case parse_boolean_token token (Some False) of
                  (True, Some v) \<Rightarrow> (Inr True, ARG_b v, scratch)
                | _ \<Rightarrow> (Inr False, out_val, scratch))
           | TYPE_STRING_e \<Rightarrow> (Inr True, ARG_str_cp p, scratch)
           | TYPE_UINT8_PTR_e \<Rightarrow>
               if MAX_ARG_CONTENT_SIZE < used scratch + hex_stores token MAX_ARG_CONTENT_SIZE
               then (Inl (E_STORE_OUT_OF_BOUNDS
                            (used scratch + hex_stores token MAX_ARG_CONTENT_SIZE - 1)),
                     out_val, scratch)
               else
                 (case parse_hex_string token (array_memory (buffer scratch)) (Some (used scratch))
                         MAX_ARG_CONTENT_SIZE (Some 0) of
                    (True, mem, Some bytes_len) \<Rightarrow>
                      let scratch = scratch\<lparr>buffer := memory_array mem MAX_ARG_CONTENT_SIZE\<rparr> in
                      (Inr True, ARG_bytes_u8p (used scratch),
                       scratch\<lparr>used := used scratch + bytes_len\<rparr>)
                  | (_, mem, _) \<Rightarrow>
                      (Inr False, out_val,
                       scratch\<lparr>buffer := memory_array mem MAX_ARG_CONTENT_SIZE\<rparr>))))"

text \<open>
  The \<open>for\<close> loop of \<open>parse_arguments\<close>, from index \<open>i\<close>.  It returns the result with the
  argument array and the scratch buffer as the loop leaves them; a store behind the
  scratch array ends it there.
\<close>

function parse_arguments_loop ::
  "ce_signature_st \<Rightarrow> char list \<Rightarrow> nat option list \<Rightarrow> nat \<Rightarrow> ce_arg_value_ut list
     \<Rightarrow> scratch_buffer_st \<Rightarrow> (ce_error + unit) \<times> ce_arg_value_ut list \<times> scratch_buffer_st" where
  "parse_arguments_loop sig line tokens_ca i out_args_a scratch =
     (if i < unat (type_count_u8 sig) then
        (if length tokens_ca \<le> i + ARG_OFFSET \<or> length (types_e sig) \<le> i
            \<or> length out_args_a \<le> i
         then (Inl E_OUT_OF_BOUNDS, out_args_a, scratch)
         else
           (case tokens_ca ! (i + ARG_OFFSET) of
              None \<Rightarrow> (Inl (E_MISSING_ARGUMENT (i + 1)), out_args_a, scratch)
            | Some token_cp \<Rightarrow>
                (case parse_value_by_type (types_e sig ! i) line (Some token_cp)
                        (out_args_a ! i) scratch of
                   (Inl e, v, scratch') \<Rightarrow> (Inl e, out_args_a[i := v], scratch')
                 | (Inr False, v, scratch') \<Rightarrow>
                     (Inl (E_ARG_PARSE (i + 1)), out_args_a[i := v], scratch')
                 | (Inr True, v, scratch') \<Rightarrow>
                     parse_arguments_loop sig line tokens_ca (i + 1) (out_args_a[i := v])
                       scratch')))
      else (Inr (), out_args_a, scratch))"
  by pat_completeness auto
termination
  by (relation "measure (\<lambda>(sig, line, tokens_ca, i, out_args_a, scratch).
        unat (type_count_u8 sig) - i)") auto

declare parse_arguments_loop.simps [simp del]

definition parse_arguments ::
  "ce_signature_st option \<Rightarrow> char list \<Rightarrow> nat option list \<Rightarrow> ce_arg_value_ut list
     \<Rightarrow> scratch_buffer_st \<Rightarrow> (ce_error + unit) \<times> ce_arg_value_ut list \<times> scratch_buffer_st" where
  "parse_arguments sig_pst line tokens_ca out_args_a scratch =
     (case sig_pst of
        None \<Rightarrow> (Inl E_NULL_POINTER, out_args_a, scratch)
      | Some sig \<Rightarrow>
          if unat (type_count_u8 sig) > MAX_PARSABLE_ARGUMENTS
          then (Inl E_TOO_MANY_ARGUMENTS, out_args_a, scratch)
          else parse_arguments_loop sig line tokens_ca 0 out_args_a scratch)"

text \<open>
  The signature table is the list of the \<open>ce_table_get_signatures_count()\<close> entries that
  \<open>ce_table_get_signatures()\<close> points to; it is generated and is a parameter here.
\<close>

fun lookup_signature_by_hash :: "ce_signature_st list \<Rightarrow> 32 word \<Rightarrow> ce_signature_st option" where
  "lookup_signature_by_hash [] hash = None"
| "lookup_signature_by_hash (sig # table) hash =
     (if hash_u32 sig = hash then Some sig else lookup_signature_by_hash table hash)"

subsection \<open>Tokenizer\<close>

text \<open>
  The line is a buffer and \<open>ptr\<close> an index into it; a token pointer is the index of the
  token's first character, and \<open>tokens\<close> is the array \<open>tokens[MAX_TOKENS]\<close> (\<open>None\<close> for
  NULL).  The buffer that \<open>ce_dispatch_from_line\<close> hands in ends with a NUL, so the loops
  stop inside it; the test \<open>ptr < length line\<close> makes the byte behind any buffer a NUL.
\<close>

text \<open>The first \<open>while\<close> loop of \<open>parse_line_to_tokens\<close>.\<close>

function tokenize_loop ::
  "char list \<Rightarrow> nat option list \<Rightarrow> nat \<Rightarrow> nat \<Rightarrow> bool
     \<Rightarrow> char list \<times> nat option list \<times> nat \<times> nat \<times> bool" where
  "tokenize_loop line tokens count ptr in_token =
     (if ptr < length line \<and> line ! ptr \<noteq> NUL \<and> count < MAX_TOKENS then
        (if IS_WHITESPACE (line ! ptr)
         then tokenize_loop (line[ptr := NUL]) tokens count (ptr + 1) False
         else if \<not> in_token
         then tokenize_loop line (tokens[count := Some ptr]) (count + 1) (ptr + 1) True
         else tokenize_loop line tokens count (ptr + 1) in_token)
      else (line, tokens, count, ptr, in_token))"
  by pat_completeness auto
termination
  by (relation "measure (\<lambda>(line, tokens, count, ptr, in_token). length line - ptr)") auto

declare tokenize_loop.simps [simp del]

text \<open>The loop that consumes the rest of the token the first loop stopped in.\<close>

function skip_token_loop :: "char list \<Rightarrow> nat \<Rightarrow> nat" where
  "skip_token_loop line ptr =
     (if ptr < length line \<and> line ! ptr \<noteq> NUL \<and> \<not> IS_WHITESPACE (line ! ptr)
      then skip_token_loop line (ptr + 1)
      else ptr)"
  by pat_completeness auto
termination
  by (relation "measure (\<lambda>(line, ptr). length line - ptr)") auto

declare skip_token_loop.simps [simp del]

text \<open>The loop that null-terminates trailing whitespace.\<close>

function trailing_loop :: "char list \<Rightarrow> nat \<Rightarrow> char list \<times> nat" where
  "trailing_loop line ptr =
     (if ptr < length line \<and> line ! ptr \<noteq> NUL \<and> IS_WHITESPACE (line ! ptr)
      then trailing_loop (line[ptr := NUL]) (ptr + 1)
      else (line, ptr))"
  by pat_completeness auto
termination
  by (relation "measure (\<lambda>(line, ptr). length line - ptr)") auto

declare trailing_loop.simps [simp del]

text \<open>
  \<open>parse_line_to_tokens\<close> on the buffer \<open>line\<close>: the result (\<open>Inr\<close> of the value stored to
  \<open>*tokens_count\<close>), the buffer and the token array after the call.  Its three pointers
  are addresses of locals of \<open>ce_dispatch_from_line\<close>, so its NULL test has no input.
\<close>

definition parse_line_to_tokens ::
  "char list \<Rightarrow> nat option list \<Rightarrow> (ce_error + nat) \<times> char list \<times> nat option list" where
  "parse_line_to_tokens line tokens =
     (case tokenize_loop line tokens 0 0 False of
        (line, tokens, count, ptr, in_token) \<Rightarrow>
          let ptr = (if in_token \<and> count = MAX_TOKENS then skip_token_loop line ptr else ptr) in
          (case trailing_loop line ptr of
             (line, ptr) \<Rightarrow>
               if count = MAX_TOKENS \<and> ptr < length line \<and> line ! ptr \<noteq> NUL
               then (Inl E_TOO_MANY_TOKENS, line, tokens)
               else (Inr count, line, tokens)))"

subsection \<open>Dispatch\<close>

text \<open>
  \<open>ce_invoke_handler\<close> is generated code and a parameter here: it is given the signature
  and the argument array, with the line buffer and the scratch array its pointer
  arguments point into, and returns a \<open>bool\<close>.
\<close>

type_synonym invoke_handler =
  "ce_signature_st \<Rightarrow> ce_arg_value_ut list \<Rightarrow> char list \<Rightarrow> 8 word list \<Rightarrow> bool"

text \<open>
  \<open>dispatch_command\<close> returns its result, its locals \<open>args_a\<close> and \<open>scratch\<close> as they are on
  return, and the calls of \<open>ce_invoke_handler\<close> it made, in order.  When argument parsing
  is ended by a store behind the scratch array, these are the locals and the calls at
  that point.
\<close>

definition dispatch_command ::
  "invoke_handler \<Rightarrow> ce_signature_st option \<Rightarrow> char list \<Rightarrow> nat option list
     \<Rightarrow> (ce_error + unit) \<times> ce_arg_value_ut list \<times> scratch_buffer_st
         \<times> (ce_signature_st \<times> ce_arg_value_ut list) list" where
  "dispatch_command invoke sig_pst line tokens_ca =
     (let args_a = replicate MAX_TOKENS ARG_ZERO;
          scratch = \<lparr>buffer = replicate MAX_ARG_CONTENT_SIZE 0, used = 0\<rparr>
      in case sig_pst of
           None \<Rightarrow> (Inl E_NULL_POINTER, args_a, scratch, [])
         | Some sig \<Rightarrow>
             (case parse_arguments sig_pst line tokens_ca args_a scratch of
                (Inl e, args_a, scratch) \<Rightarrow> (Inl e, args_a, scratch, [])
              | (Inr _, args_a, scratch) \<Rightarrow>
                  if \<not> invoke sig args_a line (buffer scratch)
                  then (Inl E_INVOKE_FAILED, args_a, scratch, [(sig, args_a)])
                  else (Inr (), args_a, scratch, [(sig, args_a)])))"

text \<open>
  Strings live in a store of objects.  \<open>LINE_BUF\<close> is the local array \<open>line_buf\<close> of
  \<open>ce_dispatch_from_line\<close>; every other object, the caller's line among them, is a
  \<open>CALLER\<close> object.  \<open>line_str\<close> points to a caller object (\<open>None\<close> for NULL).
\<close>

datatype object = LINE_BUF | CALLER nat

type_synonym store = "object \<Rightarrow> char list"

text \<open>
  What a call of \<open>ce_dispatch_from_line\<close> leaves behind: the returned value, the store,
  the locals \<open>tokens_apc\<close>, \<open>args_a\<close> and \<open>scratch\<close>, and the calls of \<open>ce_invoke_handler\<close>.
  A run with \<open>returned = Inl (E_STORE_OUT_OF_BOUNDS n)\<close> has not returned: the record is
  the state in which \<open>parse_hex_string\<close> is called to store behind the scratch array, and
  says nothing of what follows.
\<close>

record dispatch_outcome =
  returned :: "ce_error + unit"
  store_after :: store
  tokens_apc :: "nat option list"
  args_after :: "ce_arg_value_ut list"
  scratch_after :: scratch_buffer_st
  handler_calls :: "(ce_signature_st \<times> ce_arg_value_ut list) list"

text \<open>
  \<open>strncpy(line_buf, line_str, sizeof(line_buf) - 1)\<close> into the zeroed array, followed by
  \<open>line_buf[sizeof(line_buf) - 1] = '\0'\<close>, for a string shorter than the array.
\<close>

definition copy_line :: "char list \<Rightarrow> char list" where
  "copy_line s = cstr s @ replicate (MAX_LINE_BUF_SIZE - strlen s) NUL"

definition ce_dispatch_from_line ::
  "bool \<Rightarrow> ce_signature_st list \<Rightarrow> invoke_handler \<Rightarrow> store \<Rightarrow> nat option \<Rightarrow> dispatch_outcome" where
  "ce_dispatch_from_line char_signed table invoke mem line_str =
     (let start = \<lparr>returned = Inl E_NULL_POINTER,
                   store_after = mem(LINE_BUF := replicate MAX_LINE_BUF_SIZE NUL),
                   tokens_apc = replicate MAX_TOKENS None,
                   args_after = [],
                   scratch_after = \<lparr>buffer = replicate MAX_ARG_CONTENT_SIZE 0, used = 0\<rparr>,
                   handler_calls = []\<rparr>
      in case line_str of
           None \<Rightarrow> start
         | Some l \<Rightarrow>
             if strlen (mem (CALLER l)) \<ge> MAX_LINE_BUF_SIZE
             then start\<lparr>returned := Inl E_LINE_TRUNCATED\<rparr>
             else
               (case parse_line_to_tokens (copy_line (mem (CALLER l))) (tokens_apc start) of
                  (Inl e, line_buf, tokens) \<Rightarrow>
                    start\<lparr>returned := Inl e,
                          store_after := mem(LINE_BUF := line_buf),
                          tokens_apc := tokens\<rparr>
                | (Inr tokens_count, line_buf, tokens) \<Rightarrow>
                    let tokenized = start\<lparr>store_after := mem(LINE_BUF := line_buf),
                                           tokens_apc := tokens\<rparr>
                    in (case (if tokens_count = 0 then None else tokens ! 0) of
                          None \<Rightarrow> tokenized\<lparr>returned := Inl E_NO_COMMAND\<rparr>
                        | Some token0 \<Rightarrow>
                            let hash = ce_hash_calculate char_signed (Some (drop token0 line_buf)) in
                            (case lookup_signature_by_hash table hash of
                               None \<Rightarrow> tokenized\<lparr>returned := Inl E_UNKNOWN_COMMAND\<rparr>
                             | Some sig \<Rightarrow>
                                 (case validate_argument_count tokens_count (Some sig) of
                                    Inl e \<Rightarrow> tokenized\<lparr>returned := Inl e\<rparr>
                                  | Inr _ \<Rightarrow>
                                      (case dispatch_command invoke (Some sig) line_buf tokens of
                                         (r, args_a, scratch, calls) \<Rightarrow>
                                           tokenized\<lparr>returned := r,
                                                     args_after := args_a,
                                                     scratch_after := scratch,
                                                     handler_calls := calls\<rparr>))))))"

section \<open>Vocabulary of the specification\<close>

definition is_digit :: "char \<Rightarrow> bool" where
  "is_digit c \<longleftrightarrow> char_in_range (CHR ''0'') c (CHR ''9'')"

definition digit_value :: "char \<Rightarrow> nat" where
  "digit_value c = of_char c - of_char (CHR ''0'')"

definition decimal_from :: "nat \<Rightarrow> string \<Rightarrow> nat" where
  "decimal_from a s = foldl (\<lambda>a c. a * 10 + digit_value c) a s"

text \<open>The number a string of decimal digits denotes.\<close>

definition decimal_value :: "string \<Rightarrow> nat" where
  "decimal_value s = decimal_from 0 s"

text \<open>A non-empty string of decimal digits whose value is at most \<open>bound\<close>.\<close>

definition unsigned_decimal :: "nat \<Rightarrow> string \<Rightarrow> bool" where
  "unsigned_decimal bound s \<longleftrightarrow> s \<noteq> [] \<and> list_all is_digit s \<and> decimal_value s \<le> bound"

text \<open>
  An optional single leading \<open>+\<close> or \<open>-\<close>, then one or more decimal digits: the digits,
  the sign and the signed value.
\<close>

definition has_sign :: "string \<Rightarrow> bool" where
  "has_sign s \<longleftrightarrow> s \<noteq> [] \<and> (hd s = CHR ''-'' \<or> hd s = CHR ''+'')"

definition sign_digits :: "string \<Rightarrow> string" where
  "sign_digits s = (if has_sign s then tl s else s)"

definition is_negative :: "string \<Rightarrow> bool" where
  "is_negative s \<longleftrightarrow> s \<noteq> [] \<and> hd s = CHR ''-''"

definition signed_value :: "string \<Rightarrow> int" where
  "signed_value s =
     (if is_negative s then - int (decimal_value (sign_digits s))
      else int (decimal_value (sign_digits s)))"

definition signed_decimal :: "int \<Rightarrow> int \<Rightarrow> string \<Rightarrow> bool" where
  "signed_decimal lo hi s \<longleftrightarrow>
     sign_digits s \<noteq> [] \<and> list_all is_digit (sign_digits s)
     \<and> lo \<le> signed_value s \<and> signed_value s \<le> hi"

text \<open>Hex digits, either case, and the byte a pair of them denotes.\<close>

definition is_hex_digit :: "char \<Rightarrow> bool" where
  "is_hex_digit c \<longleftrightarrow>
     char_in_range (CHR ''0'') c (CHR ''9'') \<or> char_in_range (CHR ''a'') c (CHR ''f'')
     \<or> char_in_range (CHR ''A'') c (CHR ''F'')"

definition hex_value :: "char \<Rightarrow> nat" where
  "hex_value c =
     (if char_in_range (CHR ''0'') c (CHR ''9'') then of_char c - of_char (CHR ''0'')
      else if char_in_range (CHR ''a'') c (CHR ''f'') then 10 + (of_char c - of_char (CHR ''a''))
      else 10 + (of_char c - of_char (CHR ''A'')))"

fun hex_bytes :: "string \<Rightarrow> 8 word list" where
  "hex_bytes (h # l # s) = of_nat (hex_value h * 16 + hex_value l) # hex_bytes s"
| "hex_bytes _ = []"

text \<open>The byte that the pair of hex digits number \<open>i\<close> of a string denotes.\<close>

definition hex_byte_at :: "char list \<Rightarrow> nat \<Rightarrow> 8 word" where
  "hex_byte_at s i = of_nat (hex_value (s ! (i * 2)) * 16 + hex_value (s ! (i * 2 + 1)))"

text \<open>
  A non-empty string of even length, of hex digits only, that decodes to at most
  \<open>max_len\<close> bytes.
\<close>

definition hex_string :: "nat \<Rightarrow> string \<Rightarrow> bool" where
  "hex_string max_len s \<longleftrightarrow>
     s \<noteq> [] \<and> even (length s) \<and> list_all is_hex_digit s \<and> length s div 2 \<le> max_len"

text \<open>Memory after the bytes \<open>bs\<close> have been stored from address \<open>buf\<close> on.\<close>

definition store_bytes :: "byte_memory \<Rightarrow> nat \<Rightarrow> 8 word list \<Rightarrow> byte_memory" where
  "store_bytes mem buf bs = (\<lambda>a. if buf \<le> a \<and> a < buf + length bs then bs ! (a - buf) else mem a)"

text \<open>
  The tokens of a line: its maximal runs of characters that are not whitespace, in
  order.
\<close>

function split_ws :: "string \<Rightarrow> string list" where
  "split_ws s =
     (case dropWhile IS_WHITESPACE s of
        [] \<Rightarrow> []
      | c # t \<Rightarrow>
          (c # takeWhile (\<lambda>c. \<not> IS_WHITESPACE c) t)
            # split_ws (dropWhile (\<lambda>c. \<not> IS_WHITESPACE c) t))"
  by pat_completeness auto
termination
proof (relation "measure length")
  show "wf (measure length)" by simp
next
  fix s :: string and c t
  assume "dropWhile IS_WHITESPACE s = c # t"
  then have "length t < length s"
    using length_dropWhile_le[of IS_WHITESPACE s] by simp
  moreover have "length (dropWhile (\<lambda>c. \<not> IS_WHITESPACE c) t) \<le> length t"
    by (rule length_dropWhile_le)
  ultimately show "(dropWhile (\<lambda>c. \<not> IS_WHITESPACE c) t, s) \<in> measure length"
    by simp
qed

declare split_ws.simps [simp del]

text \<open>What is left of a line behind its first \<open>n\<close> tokens.\<close>

fun drop_tokens :: "nat \<Rightarrow> string \<Rightarrow> string" where
  "drop_tokens 0 s = s"
| "drop_tokens (Suc n) s =
     drop_tokens n (dropWhile (\<lambda>c. \<not> IS_WHITESPACE c) (dropWhile IS_WHITESPACE s))"

text \<open>
  The number of tokens that still begin in \<open>r\<close>, for a scanner that is inside a token
  (\<open>in_token\<close>: the characters up to the next whitespace continue that token) or not.
\<close>

definition pending_tokens :: "bool \<Rightarrow> string \<Rightarrow> nat" where
  "pending_tokens in_token r =
     length (split_ws (if in_token then dropWhile (\<lambda>c. \<not> IS_WHITESPACE c) r else r))"


text \<open>
  The validation steps of the dispatch state machine, in the specification's order
  (Tokenize, Resolve, ArityCheck), on the caller's line: the cause of the first step
  that fails, or \<open>None\<close> when the line reaches argument parsing.
\<close>

definition first_failure ::
  "bool \<Rightarrow> ce_signature_st list \<Rightarrow> store \<Rightarrow> nat option \<Rightarrow> ce_error option" where
  "first_failure char_signed table mem line_str =
     (case line_str of
        None \<Rightarrow> Some E_NULL_POINTER
      | Some l \<Rightarrow>
          let s = cstr (mem (CALLER l)); toks = split_ws s in
          if MAX_LINE_BUF_SIZE \<le> length s then Some E_LINE_TRUNCATED
          else if MAX_TOKENS < length toks then Some E_TOO_MANY_TOKENS
          else if toks = [] then Some E_NO_COMMAND
          else (case lookup_signature_by_hash table (ce_hash_calculate char_signed (Some (hd toks))) of
                  None \<Rightarrow> Some E_UNKNOWN_COMMAND
                | Some sig \<Rightarrow>
                    if length toks - 1 \<noteq> unat (type_count_u8 sig) then Some E_ARG_COUNT_MISMATCH
                    else None))"


section \<open>A signature table\<close>

text \<open>
  An instance of the generated table: the demo commands that \<open>demo.h\<close> declares and the
  dispatcher tests call, each with the DJB2 hash of its name, a handler number and the
  argument types of its prototype.
\<close>

definition demo_signature :: "string \<Rightarrow> nat \<Rightarrow> ce_arg_type_et list \<Rightarrow> ce_signature_st" where
  "demo_signature name h types =
     \<lparr>hash_u32 = ce_hash_calculate False (Some name), handler = h, types_e = types,
      type_count_u8 = of_nat (length types)\<rparr>"

definition demo_table :: "ce_signature_st list" where
  "demo_table =
     [demo_signature ''cat_string'' 0 [TYPE_STRING_e],
      demo_signature ''cat_byte'' 1 [TYPE_UINT8_e],
      demo_signature ''cat_bytes'' 2 [TYPE_UINT8_PTR_e, TYPE_UINT8_e],
      demo_signature ''void'' 3 [],
      demo_signature ''cat_mixed'' 4
        [TYPE_UINT8_PTR_e, TYPE_UINT8_PTR_e, TYPE_STRING_e, TYPE_STRING_e,
         TYPE_UINT8_PTR_e, TYPE_INT64_e, TYPE_UINT32_e]]"

text \<open>A handler that always succeeds.\<close>

definition always_ok :: invoke_handler where
  "always_ok sig args line mem = True"


text \<open>
  A line for \<open>cat_mixed\<close> whose first binary argument is 64 bytes long and whose second
  is the byte \<open>FF\<close>; it is 157 characters long.
\<close>

definition overflow_line :: string where
  "overflow_line =
     ''cat_mixed '' @ concat (replicate 64 ''AB'') @ '' FF foo bar 00 -1 1''"

text \<open>
  A line for \<open>cat_mixed\<close> whose first binary argument is 32 bytes long and whose second
  is 64 bytes long; it is 219 characters long.
\<close>

definition overrun_line :: string where
  "overrun_line =
     ''cat_mixed '' @ concat (replicate 32 ''AB'') @ '' '' @ concat (replicate 64 ''CD'')
       @ '' foo bar 00 -1 1''"

section \<open>C strings: basic facts\<close>

lemma cstr_Nil [simp]: "cstr [] = []"
  by (simp add: cstr_def)

lemma cstr_Cons: "cstr (c # s) = (if c = NUL then [] else c # cstr s)"
  by (simp add: cstr_def)


lemma cstr_idem [simp]: "cstr (cstr s) = cstr s"
  by (simp add: cstr_def)

lemma cstr_no_NUL: "NUL \<notin> set s \<Longrightarrow> cstr s = s"
  by (auto simp: cstr_def takeWhile_eq_all_conv)

section \<open>The hash\<close>

lemma char_to_u32_byte:
  assumes "\<not> sg \<or> of_char c < (128::nat)"
  shows "unat (char_to_u32 sg c) = of_char c"
proof -
  from assms have "char_to_u32 sg c = of_nat (of_char c)"
    by (auto simp: char_to_u32_def char_value_def)
  moreover have "(of_char c :: nat) < 4294967296"
    using nat_of_char_less_256[of c] by linarith
  ultimately show ?thesis
    by (simp add: unat_of_nat)
qed

lemma hash_step_eq:
  "(push_bit DJB2_HASH_SHIFT h + h) + w = h * 33 + (w :: 32 word)"
  by (simp add: DJB2_HASH_SHIFT_def push_bit_eq_mult)

lemma hash_step_unat:
  "unat (h * 33 + w :: 32 word) = (unat h * 33 + unat w) mod 2 ^ 32"
  by (simp add: unat_word_ariths mod_simps mult.commute)

lemma hash_loop_foldl:
  "hash_loop sg h s = foldl (\<lambda>h c. h * 33 + char_to_u32 sg c) h (cstr s)"
proof (induction s arbitrary: h)
  case Nil
  then show ?case by simp
next
  case (Cons c s)
  then show ?case
    by (simp add: cstr_Cons hash_step_eq del: push_bit_eq_mult)
qed

lemma foldl_djb2_spec:
  assumes "\<forall>c\<in>set s. \<not> sg \<or> of_char c < (128::nat)"
  shows "unat (foldl (\<lambda>h c. h * 33 + char_to_u32 sg c) h s) = djb2_spec (unat h) (map of_char s)"
  using assms
proof (induction s arbitrary: h)
  case Nil
  then show ?case by simp
next
  case (Cons c s)
  from Cons.prems have c: "\<not> sg \<or> of_char c < (128::nat)"
    and rest: "\<forall>c\<in>set s. \<not> sg \<or> of_char c < (128::nat)"
    by simp_all
  show ?case
    using Cons.IH[OF rest, of "h * 33 + char_to_u32 sg c"] char_to_u32_byte[OF c]
    by (simp add: hash_step_unat)
qed

text \<open>
  \<open>ce_hash_calculate\<close> is a total function: NULL gives 0, the empty string gives the seed
  5381, and every string gives the fold of \<open>hash * 33 + (uint32_t)c\<close> from 5381 over its
  characters, with 32-bit wrap-around.  When plain \<open>char\<close> is unsigned, or when every byte
  of the string is below \<open>0x80\<close>, this is classic DJB2 on the byte values.
\<close>

lemma ce_hash_calculate_djb2:
  "ce_hash_calculate sg None = 0
   \<and> ce_hash_calculate sg (Some []) = 5381
   \<and> ce_hash_calculate sg (Some s) = foldl (\<lambda>h c. h * 33 + char_to_u32 sg c) 5381 (cstr s)
   \<and> (\<not> sg \<or> (\<forall>c\<in>set (cstr s). of_char c < (128::nat))
        \<longrightarrow> unat (ce_hash_calculate sg (Some s)) = djb2 (cstr s))"
proof -
  have "unat (ce_hash_calculate sg (Some s)) = djb2 (cstr s)"
    if "\<not> sg \<or> (\<forall>c\<in>set (cstr s). of_char c < (128::nat))"
  proof -
    from that have "\<forall>c\<in>set (cstr s). \<not> sg \<or> of_char c < (128::nat)" by blast
    then show ?thesis
      using foldl_djb2_spec[of "cstr s" sg "5381"]
      by (simp add: ce_hash_calculate_def DJB2_INIT_HASH_def hash_loop_foldl djb2_def)
  qed
  then show ?thesis
    by (simp add: ce_hash_calculate_def DJB2_INIT_HASH_def hash_loop_foldl)
qed

lemma ce_hash_calculate_reset:
  "unat (ce_hash_calculate True (Some ''reset'')) = 0x10474288"
proof -
  have h: "\<forall>c\<in>set (cstr ''reset''). of_char c < (128::nat)"
    by (simp add: cstr_def NUL_def)
  from ce_hash_calculate_djb2[of True "''reset''"] h
  have "unat (ce_hash_calculate True (Some ''reset'')) = djb2 (cstr ''reset'')"
    by blast
  also have "djb2 (cstr ''reset'') = 0x10474288"
    by (simp add: cstr_def NUL_def djb2_def)
  finally show ?thesis .
qed

text \<open>
  C3 fails on the code where plain \<open>char\<close> is signed.  \<open>ce_hash_calculate\<close> adds
  \<open>(uint32_t)c\<close> for a plain \<open>char c\<close>, which sign-extends a byte from \<open>0x80\<close> on.  The
  one-byte string \<open>"\x80"\<close> hashes to \<open>5381 * 33 - 128 = 177445\<close> there; where plain \<open>char\<close>
  is unsigned it hashes to \<open>5381 * 33 + 128 = 177701\<close>, which is DJB2 on the byte value.  So
  the digest of a string depends on the target, and a command of that name whose table
  entry holds the DJB2 digest is not found where plain \<open>char\<close> is signed.
\<close>

theorem ce_hash_calculate_sign_extension:
  "unat (ce_hash_calculate True (Some [CHR 0x80])) = 177445
   \<and> unat (ce_hash_calculate False (Some [CHR 0x80])) = 177701
   \<and> djb2 [CHR 0x80] = 177701
   \<and> lookup_signature_by_hash [\<lparr>hash_u32 = 177701, handler = 0, types_e = [],
          type_count_u8 = 0\<rparr>] (ce_hash_calculate True (Some [CHR 0x80])) = None
   \<and> lookup_signature_by_hash [\<lparr>hash_u32 = 177701, handler = 0, types_e = [],
          type_count_u8 = 0\<rparr>] (ce_hash_calculate False (Some [CHR 0x80]))
       = Some \<lparr>hash_u32 = 177701, handler = 0, types_e = [], type_count_u8 = 0\<rparr>"
  by (simp add: ce_hash_calculate_def DJB2_INIT_HASH_def DJB2_HASH_SHIFT_def char_to_u32_def
      char_value_def NUL_def djb2_def)

section \<open>The digit loop\<close>

lemma unat_ten: "10 \<le> unat (bound :: 'a::len word) \<Longrightarrow> unat (10 :: 'a word) = 10"
proof -
  assume a: "10 \<le> unat bound"
  have "unat bound < 2 ^ LENGTH('a)" by (rule unsigned_less)
  with a have "(10::nat) < 2 ^ LENGTH('a)" by linarith
  then show ?thesis by (simp add: take_bit_nat_eq_self)
qed

lemma unat_small:
  "10 \<le> unat (bound :: 'a::len word) \<Longrightarrow> d < 10 \<Longrightarrow> unat (of_nat d :: 'a word) = d"
proof -
  assume a: "10 \<le> unat bound" and d: "d < 10"
  have "unat bound < 2 ^ LENGTH('a)" by (rule unsigned_less)
  with a d have "d < 2 ^ LENGTH('a)" by linarith
  then show ?thesis by (simp add: unat_of_nat)
qed

lemma digits_step_mul:
  fixes bound v :: "'a::len word"
  assumes "10 \<le> unat bound"
  shows "(v > bound div 10) = (unat bound < unat v * 10)"
proof -
  have "unat (bound div 10) = unat bound div unat (10 :: 'a word)"
    by (rule unat_div)
  then have "unat (bound div 10) = unat bound div 10"
    by (simp only: unat_ten[OF assms])
  then show ?thesis
    by (auto simp: word_less_nat_alt)
qed

lemma digits_step_add:
  fixes bound v :: "'a::len word"
  assumes b: "10 \<le> unat bound" and d: "d < 10" and m: "unat v * 10 \<le> unat bound"
  shows "unat (v * 10) = unat v * 10"
    and "(of_nat d > bound - v * 10) = (unat bound < unat v * 10 + d)"
    and "unat v * 10 + d \<le> unat bound \<Longrightarrow> unat (v * 10 + of_nat d) = unat v * 10 + d"
proof -
  have lt: "unat bound < 2 ^ LENGTH('a)" by (rule unsigned_less)
  have "unat v * unat (10 :: 'a word) < 2 ^ LENGTH('a)"
    using m lt by (simp only: unat_ten[OF b])
  then have "unat (v * 10) = unat v * unat (10 :: 'a word)"
    by (simp only: unat_mult_lem)
  then show m10: "unat (v * 10) = unat v * 10"
    by (simp only: unat_ten[OF b])
  have le: "v * 10 \<le> bound"
    using m by (simp only: word_le_nat_alt m10)
  have sub: "unat (bound - v * 10) = unat bound - unat v * 10"
    using le by (simp only: unat_sub m10)
  have "(of_nat d > bound - v * 10) = (unat (bound - v * 10) < unat (of_nat d :: 'a word))"
    by (simp only: word_less_nat_alt)
  also have "\<dots> = (unat bound - unat v * 10 < d)"
    by (simp only: sub unat_small[OF b d])
  also have "\<dots> = (unat bound < unat v * 10 + d)"
    using m by linarith
  finally show "(of_nat d > bound - v * 10) = (unat bound < unat v * 10 + d)" .
  show "unat (v * 10 + of_nat d) = unat v * 10 + d" if "unat v * 10 + d \<le> unat bound"
  proof -
    have "unat (v * 10) + unat (of_nat d :: 'a word) < 2 ^ LENGTH('a)"
      using that lt by (simp only: m10 unat_small[OF b d])
    then have "unat (v * 10 + of_nat d) = unat (v * 10) + unat (of_nat d :: 'a word)"
      by (simp only: unat_add_lem)
    then show ?thesis by (simp only: m10 unat_small[OF b d])
  qed
qed

text \<open>
  The range tests of the parsers do not depend on the signedness of \<open>char\<close>: between two
  ASCII bounds, comparing the \<open>char\<close> values and comparing the bytes agree.
\<close>

lemma char_in_range_signedness:
  assumes "of_char lo < (128::nat)" "of_char hi < (128::nat)"
  shows "char_value sg lo \<le> char_value sg c \<and> char_value sg c \<le> char_value sg hi
         \<longleftrightarrow> char_in_range lo c hi"
proof -
  have c: "of_char c < (256::nat)"
    by (rule nat_of_char_less_256)
  show ?thesis
  proof (cases "sg \<and> 128 \<le> (of_char c :: nat)")
    case True
    then have "char_value sg c = int (of_char c) - 256"
      by (simp add: char_value_def)
    moreover have "char_value sg lo = int (of_char lo)"
      using assms(1) by (simp add: char_value_def)
    moreover have "\<not> char_in_range lo c hi"
      using True assms(2) by (simp add: char_in_range_def)
    moreover have "int (of_char c) - 256 < int (of_char lo)"
      using c by linarith
    ultimately show ?thesis
      by (simp only: not_le[symmetric] simp_thms)
  next
    case False
    then have "char_value sg c = int (of_char c)"
      by (auto simp: char_value_def)
    moreover have "char_value sg lo = int (of_char lo)"
      using assms(1) by (simp add: char_value_def)
    moreover have "char_value sg hi = int (of_char hi)"
      using assms(2) by (simp add: char_value_def)
    ultimately show ?thesis
      by (simp add: char_in_range_def)
  qed
qed

lemma digit_value_less: "is_digit c \<Longrightarrow> digit_value c < 10"
  by (auto simp: is_digit_def digit_value_def char_in_range_def)

lemma decimal_from_ge: "a \<le> decimal_from a s"
proof (induction s arbitrary: a)
  case Nil
  then show ?case by (simp add: decimal_from_def)
next
  case (Cons c s)
  have "a \<le> a * 10 + digit_value c" by simp
  also have "\<dots> \<le> decimal_from (a * 10 + digit_value c) s" by (rule Cons.IH)
  finally show ?case by (simp add: decimal_from_def)
qed

lemma ucast_digit: "d < 10 \<Longrightarrow> (ucast (of_nat d :: 8 word) :: 'a::len word) = of_nat d"
proof -
  assume "d < 10"
  then have "take_bit 8 d = d" by (simp add: take_bit_nat_eq_self)
  then show ?thesis by (simp add: unsigned_of_nat)
qed

lemma ascii_to_digit_eq:
  "ascii_to_digit c = (if is_digit c then Some (of_nat (digit_value c)) else None)"
  by (simp add: ascii_to_digit_def is_digit_def digit_value_def)

lemma decimal_from_Cons: "decimal_from a (c # s) = decimal_from (a * 10 + digit_value c) s"
  by (simp add: decimal_from_def)

lemma digits_loop_spec:
  fixes bound v :: "'a::len word"
  assumes b: "10 \<le> unat bound"
  shows "unat v \<le> unat bound \<Longrightarrow>
     digits_loop bound s v =
       (if (\<forall>c\<in>set (cstr s). is_digit c) \<and> decimal_from (unat v) (cstr s) \<le> unat bound
        then Some (of_nat (decimal_from (unat v) (cstr s))) else None)"
proof (induction s arbitrary: v)
  case Nil
  then show ?case by (simp add: decimal_from_def)
next
  case (Cons c s)
  show ?case
  proof (cases "c = NUL")
    case True
    with Cons.prems show ?thesis by (simp add: cstr_Cons decimal_from_def)
  next
    case nz: False
    show ?thesis
    proof (cases "is_digit c")
      case False
      with nz show ?thesis by (simp add: cstr_Cons ascii_to_digit_eq)
    next
      case dg: True
      define d where "d = digit_value c"
      have d: "d < 10" using dg by (simp add: d_def digit_value_less)
      have ge: "unat v * 10 + d \<le> decimal_from (unat v) (cstr (c # s))"
        using nz decimal_from_ge[of "unat v * 10 + d" "cstr s"]
        by (simp add: cstr_Cons decimal_from_Cons d_def)
      show ?thesis
      proof (cases "unat bound < unat v * 10")
        case True
        with ge have "\<not> decimal_from (unat v) (cstr (c # s)) \<le> unat bound" by linarith
        with True nz dg show ?thesis
          by (simp add: ascii_to_digit_eq digits_step_mul[OF b])
      next
        case m: False
        then have m': "unat v * 10 \<le> unat bound" by simp
        show ?thesis
        proof (cases "unat bound < unat v * 10 + d")
          case True
          with ge have "\<not> decimal_from (unat v) (cstr (c # s)) \<le> unat bound" by linarith
          with True nz dg m show ?thesis
            using digits_step_add(2)[OF b d m']
            by (simp add: ascii_to_digit_eq digits_step_mul[OF b] ucast_digit[OF d] d_def[symmetric])
        next
          case a: False
          then have a': "unat v * 10 + d \<le> unat bound" by simp
          have u: "unat (v * 10 + of_nat d) = unat v * 10 + d"
            by (rule digits_step_add(3)[OF b d m' a'])
          have IH: "digits_loop bound s (v * 10 + of_nat d) =
            (if (\<forall>c\<in>set (cstr s). is_digit c) \<and> decimal_from (unat v * 10 + d) (cstr s) \<le> unat bound
             then Some (of_nat (decimal_from (unat v * 10 + d) (cstr s))) else None)"
            using Cons.IH[of "v * 10 + of_nat d"] a' by (simp only: u)
          from nz dg m a show ?thesis
            using digits_step_add(2)[OF b d m'] IH
            by (simp add: ascii_to_digit_eq digits_step_mul[OF b] ucast_digit[OF d]
                d_def[symmetric] cstr_Cons decimal_from_Cons)
        qed
      qed
    qed
  qed
qed

section \<open>The unsigned parsers\<close>

lemma peek_Nil [simp]: "peek [] = NUL"
  by (simp add: peek_def)

lemma peek_Cons [simp]: "peek (c # s) = c"
  by (simp add: peek_def)

lemma at_end_cstr: "at_end s \<longleftrightarrow> cstr s = []"
  by (cases s) (simp_all add: at_end_def cstr_Cons)

lemma peek_eq_iff: "c \<noteq> NUL \<Longrightarrow> peek s = c \<longleftrightarrow> cstr s \<noteq> [] \<and> hd (cstr s) = c"
  by (cases s) (auto simp: cstr_Cons)

lemma cstr_tl: "peek s \<noteq> NUL \<Longrightarrow> cstr (tl s) = tl (cstr s)"
  by (cases s) (simp_all add: cstr_Cons)

lemma digits_loop_zero:
  fixes bound :: "'a::len word"
  assumes "10 \<le> unat bound"
  shows "digits_loop bound s 0 =
     (if list_all is_digit (cstr s) \<and> decimal_value (cstr s) \<le> unat bound
      then Some (of_nat (decimal_value (cstr s))) else None)"
  using digits_loop_spec[OF assms, of 0 s]
  by (simp add: decimal_value_def list_all_iff)

lemma ucast_of_nat_small:
  "n < 2 ^ LENGTH('a) \<Longrightarrow> (ucast (of_nat n :: 'a::len word) :: 'b::len word) = of_nat n"
  by (simp add: unsigned_of_nat take_bit_nat_eq_self)

lemma parse_u8_spec:
  "parse_u8 (Some s) (Some out) =
     (if unsigned_decimal 255 (cstr s) then (True, Some (of_nat (decimal_value (cstr s))))
      else (False, Some out))"
proof -
  have "decimal_value (cstr s) \<le> 255 \<Longrightarrow>
      (ucast (of_nat (decimal_value (cstr s)) :: 32 word) :: 8 word) = of_nat (decimal_value (cstr s))"
    by (rule ucast_of_nat_small) simp
  then show ?thesis
    by (simp add: parse_u8_def at_end_cstr digits_loop_zero UINT8_MAX_def unsigned_decimal_def)
qed

lemma parse_u16_spec:
  "parse_u16 (Some s) (Some out) =
     (if unsigned_decimal 65535 (cstr s) then (True, Some (of_nat (decimal_value (cstr s))))
      else (False, Some out))"
proof -
  have "decimal_value (cstr s) \<le> 65535 \<Longrightarrow>
      (ucast (of_nat (decimal_value (cstr s)) :: 32 word) :: 16 word) = of_nat (decimal_value (cstr s))"
    by (rule ucast_of_nat_small) simp
  then show ?thesis
    by (simp add: parse_u16_def at_end_cstr digits_loop_zero UINT16_MAX_def unsigned_decimal_def)
qed

lemma parse_u32_spec:
  "parse_u32 (Some s) (Some out) =
     (if unsigned_decimal 4294967295 (cstr s) then (True, Some (of_nat (decimal_value (cstr s))))
      else (False, Some out))"
proof -
  have "decimal_value (cstr s) \<le> 4294967295 \<Longrightarrow>
      (ucast (of_nat (decimal_value (cstr s)) :: 64 word) :: 32 word) = of_nat (decimal_value (cstr s))"
    by (rule ucast_of_nat_small) simp
  then show ?thesis
    by (simp add: parse_u32_def at_end_cstr digits_loop_zero UINT32_MAX_def unsigned_decimal_def)
qed

lemma parse_u64_spec:
  "parse_u64 (Some s) (Some out) =
     (if unsigned_decimal 18446744073709551615 (cstr s)
      then (True, Some (of_nat (decimal_value (cstr s))))
      else (False, Some out))"
  by (simp add: parse_u64_def at_end_cstr digits_loop_zero UINT64_MAX_def unsigned_decimal_def)

lemma unat_of_nat_fits:
  "n < 2 ^ LENGTH('a) \<Longrightarrow> unat (of_nat n :: 'a::len word) = n"
  by (simp add: unat_of_nat)

section \<open>The signed parsers\<close>

lemma NUL_neq_sign [simp]: "CHR ''-'' \<noteq> NUL" "CHR ''+'' \<noteq> NUL"
  by (simp_all add: NUL_def)

lemma sign_not_digit [simp]: "\<not> is_digit (CHR ''-'')" "\<not> is_digit (CHR ''+'')"
  by (simp_all add: is_digit_def char_in_range_def)

text \<open>The sign handling of \<open>parse_i32\<close> and \<open>parse_i64\<close> on the C string.\<close>

lemma sign_split:
  "peek s = CHR ''-'' \<longleftrightarrow> is_negative (cstr s)"
  "cstr (if peek s = CHR ''-'' then tl s else if peek s = CHR ''+'' then tl s else s)
     = sign_digits (cstr s)"
proof -
  show "peek s = CHR ''-'' \<longleftrightarrow> is_negative (cstr s)"
    by (simp add: peek_eq_iff is_negative_def)
  show "cstr (if peek s = CHR ''-'' then tl s else if peek s = CHR ''+'' then tl s else s)
     = sign_digits (cstr s)"
    by (cases s) (auto simp: cstr_Cons sign_digits_def has_sign_def NUL_def)
qed

lemma of_nat_minus_int: "- (of_nat n :: 'a::len word) = word_of_int (- int n)"
  by simp

lemma sint_in_range:
  "- (2 ^ (LENGTH('a) - 1)) \<le> v \<Longrightarrow> v < 2 ^ (LENGTH('a) - 1) \<Longrightarrow>
   sint (word_of_int v :: 'a::len word) = v"
  by (simp add: sint_sbintrunc' signed_take_bit_int_eq_self)

lemma parse_i32_spec:
  "parse_i32 (Some s) (Some out) =
     (if signed_decimal (- 2147483648) 2147483647 (cstr s)
      then (True, Some (word_of_int (signed_value (cstr s))))
      else (False, Some out))"
proof -
  have b1: "10 \<le> unat (INT32_MAX + 1)" and u1: "unat (INT32_MAX + 1) = 2147483648"
    and b2: "10 \<le> unat INT32_MAX" and u2: "unat INT32_MAX = 2147483647"
    by (simp_all add: INT32_MAX_def)
  show ?thesis
  proof (cases "is_negative (cstr s)")
    case True
    then show ?thesis
      using sign_split[of s]
      by (simp add: parse_i32_def Let_def at_end_cstr digits_loop_zero[OF b1] u1
          signed_decimal_def signed_value_def)
  next
    case False
    then show ?thesis
      using sign_split[of s]
      by (simp add: parse_i32_def Let_def at_end_cstr digits_loop_zero[OF b2] u2
          signed_decimal_def signed_value_def)
  qed
qed

lemma parse_i64_spec:
  "parse_i64 (Some s) (Some out) =
     (if signed_decimal (- 9223372036854775808) 9223372036854775807 (cstr s)
      then (True, Some (word_of_int (signed_value (cstr s))))
      else (False, Some out))"
proof -
  have b1: "10 \<le> unat (INT64_MAX + 1)" and u1: "unat (INT64_MAX + 1) = 9223372036854775808"
    and b2: "10 \<le> unat INT64_MAX" and u2: "unat INT64_MAX = 9223372036854775807"
    by (simp_all add: INT64_MAX_def)
  show ?thesis
  proof (cases "is_negative (cstr s)")
    case True
    then show ?thesis
      using sign_split[of s]
      by (simp add: parse_i64_def Let_def at_end_cstr digits_loop_zero[OF b1] u1
          signed_decimal_def signed_value_def)
  next
    case False
    then show ?thesis
      using sign_split[of s]
      by (simp add: parse_i64_def Let_def at_end_cstr digits_loop_zero[OF b2] u2
          signed_decimal_def signed_value_def)
  qed
qed

lemma signed_decimal_mono:
  "signed_decimal lo hi s \<Longrightarrow> lo' \<le> lo \<Longrightarrow> hi \<le> hi' \<Longrightarrow> signed_decimal lo' hi' s"
  by (auto simp: signed_decimal_def)

lemma signed_decimal_range:
  "signed_decimal lo hi s \<longleftrightarrow>
     signed_decimal lo' hi' s \<and> lo \<le> signed_value s \<and> signed_value s \<le> hi"
  if "lo' \<le> lo" "hi \<le> hi'"
  using that by (auto simp: signed_decimal_def)

lemma ucast_word_of_int_down:
  "LENGTH('b) \<le> LENGTH('a) \<Longrightarrow>
   (ucast (word_of_int v :: 'a::len word) :: 'b::len word) = word_of_int v"
  by (simp add: ucast_down_wi is_down)

lemma parse_i8_spec:
  "parse_i8 (Some s) (Some out) =
     (if signed_decimal (- 128) 127 (cstr s)
      then (True, Some (word_of_int (signed_value (cstr s))))
      else (False, Some out))"
proof (cases "signed_decimal (- 2147483648) 2147483647 (cstr s)")
  case False
  then have "\<not> signed_decimal (- 128) 127 (cstr s)"
    using signed_decimal_mono[of "- 128" 127 "cstr s" "- 2147483648" 2147483647] by auto
  with False show ?thesis
    by (simp add: parse_i8_def parse_i32_spec)
next
  case True
  then have r: "- 2147483648 \<le> signed_value (cstr s)" "signed_value (cstr s) \<le> 2147483647"
    by (simp_all add: signed_decimal_def)
  have s: "sint (word_of_int (signed_value (cstr s)) :: 32 word) = signed_value (cstr s)"
    using r by (intro sint_in_range) simp_all
  have d: "signed_decimal (- 128) 127 (cstr s) \<longleftrightarrow>
      - 128 \<le> signed_value (cstr s) \<and> signed_value (cstr s) \<le> 127"
    using True by (simp add: signed_decimal_def)
  have u: "(ucast (word_of_int (signed_value (cstr s)) :: 32 word) :: 8 word)
      = word_of_int (signed_value (cstr s))"
    by (rule ucast_word_of_int_down) simp
  from True show ?thesis
    by (auto simp: parse_i8_def parse_i32_spec s d u INT8_MIN_def INT8_MAX_def)
qed

lemma parse_i16_spec:
  "parse_i16 (Some s) (Some out) =
     (if signed_decimal (- 32768) 32767 (cstr s)
      then (True, Some (word_of_int (signed_value (cstr s))))
      else (False, Some out))"
proof (cases "signed_decimal (- 2147483648) 2147483647 (cstr s)")
  case False
  then have "\<not> signed_decimal (- 32768) 32767 (cstr s)"
    using signed_decimal_mono[of "- 32768" 32767 "cstr s" "- 2147483648" 2147483647] by auto
  with False show ?thesis
    by (simp add: parse_i16_def parse_i32_spec)
next
  case True
  then have r: "- 2147483648 \<le> signed_value (cstr s)" "signed_value (cstr s) \<le> 2147483647"
    by (simp_all add: signed_decimal_def)
  have s: "sint (word_of_int (signed_value (cstr s)) :: 32 word) = signed_value (cstr s)"
    using r by (intro sint_in_range) simp_all
  have d: "signed_decimal (- 32768) 32767 (cstr s) \<longleftrightarrow>
      - 32768 \<le> signed_value (cstr s) \<and> signed_value (cstr s) \<le> 32767"
    using True by (simp add: signed_decimal_def)
  have u: "(ucast (word_of_int (signed_value (cstr s)) :: 32 word) :: 16 word)
      = word_of_int (signed_value (cstr s))"
    by (rule ucast_word_of_int_down) simp
  from True show ?thesis
    by (auto simp: parse_i16_def parse_i32_spec s d u INT16_MIN_def INT16_MAX_def)
qed

section \<open>Integer parsing: the claims\<close>

lemmas spec_eval =
  unsigned_decimal_def signed_decimal_def sign_digits_def has_sign_def is_negative_def
  signed_value_def decimal_value_def decimal_from_def digit_value_def is_digit_def
  char_in_range_def cstr_def NUL_def

text \<open>
  C4.  For each unsigned width, the parser succeeds exactly on the non-empty strings of
  decimal digits whose value is at most the maximum of the type, and then stores that
  value (leading zeros count for nothing); on every other string it returns false.
  The accumulator is a machine word, so a value over the maximum is rejected by the
  comparisons made before each multiplication and addition, never by wrap-around.
\<close>

theorem parse_unsigned_exact:
  "parse_u8 (Some s) (Some o8) =
     (if unsigned_decimal 255 (cstr s)
      then (True, Some (of_nat (decimal_value (cstr s)))) else (False, Some o8))
   \<and> parse_u16 (Some s) (Some o16) =
     (if unsigned_decimal 65535 (cstr s)
      then (True, Some (of_nat (decimal_value (cstr s)))) else (False, Some o16))
   \<and> parse_u32 (Some s) (Some o32) =
     (if unsigned_decimal 4294967295 (cstr s)
      then (True, Some (of_nat (decimal_value (cstr s)))) else (False, Some o32))
   \<and> parse_u64 (Some s) (Some o64) =
     (if unsigned_decimal 18446744073709551615 (cstr s)
      then (True, Some (of_nat (decimal_value (cstr s)))) else (False, Some o64))
   \<and> (unsigned_decimal 255 (cstr s) \<longrightarrow>
        unat (of_nat (decimal_value (cstr s)) :: 8 word) = decimal_value (cstr s))
   \<and> (unsigned_decimal 65535 (cstr s) \<longrightarrow>
        unat (of_nat (decimal_value (cstr s)) :: 16 word) = decimal_value (cstr s))
   \<and> (unsigned_decimal 4294967295 (cstr s) \<longrightarrow>
        unat (of_nat (decimal_value (cstr s)) :: 32 word) = decimal_value (cstr s))
   \<and> (unsigned_decimal 18446744073709551615 (cstr s) \<longrightarrow>
        unat (of_nat (decimal_value (cstr s)) :: 64 word) = decimal_value (cstr s))"
proof -
  have v8: "unat (of_nat (decimal_value (cstr s)) :: 8 word) = decimal_value (cstr s)"
    if "unsigned_decimal 255 (cstr s)"
    using that by (intro unat_of_nat_fits) (simp add: unsigned_decimal_def)
  have v16: "unat (of_nat (decimal_value (cstr s)) :: 16 word) = decimal_value (cstr s)"
    if "unsigned_decimal 65535 (cstr s)"
    using that by (intro unat_of_nat_fits) (simp add: unsigned_decimal_def)
  have v32: "unat (of_nat (decimal_value (cstr s)) :: 32 word) = decimal_value (cstr s)"
    if "unsigned_decimal 4294967295 (cstr s)"
    using that by (intro unat_of_nat_fits) (simp add: unsigned_decimal_def)
  have v64: "unat (of_nat (decimal_value (cstr s)) :: 64 word) = decimal_value (cstr s)"
    if "unsigned_decimal 18446744073709551615 (cstr s)"
    using that by (intro unat_of_nat_fits) (simp add: unsigned_decimal_def)
  show ?thesis
    using v8 v16 v32 v64
    by (simp only: parse_u8_spec parse_u16_spec parse_u32_spec parse_u64_spec) blast
qed

theorem parse_unsigned_exact_witness:
  "parse_u8 (Some ''001'') (Some 7) = (True, Some 1)
   \<and> parse_u8 (Some ''255'') (Some 7) = (True, Some 255)
   \<and> parse_u8 (Some ''256'') (Some 7) = (False, Some 7)
   \<and> parse_u64 (Some ''18446744073709551615'') (Some 7) = (True, Some 18446744073709551615)
   \<and> parse_u64 (Some ''18446744073709551616'') (Some 7) = (False, Some 7)
   \<and> unsigned_decimal 255 (cstr ''255'')
   \<and> unat (of_nat (decimal_value (cstr ''255'')) :: 8 word) = decimal_value (cstr ''255'')"
proof -
  have h: "unsigned_decimal 255 (cstr ''255'')"
    by (simp add: spec_eval)
  have "unat (of_nat (decimal_value (cstr ''255'')) :: 8 word) = decimal_value (cstr ''255'')"
    using parse_unsigned_exact[of "''255''" 7 7 7 7] h by blast
  moreover have "parse_u8 (Some ''001'') (Some 7) = (True, Some 1)"
    using parse_unsigned_exact[of "''001''" 7 7 7 7] by (simp add: spec_eval)
  moreover have "parse_u8 (Some ''255'') (Some 7) = (True, Some 255)"
    using parse_unsigned_exact[of "''255''" 7 7 7 7] by (simp add: spec_eval)
  moreover have "parse_u8 (Some ''256'') (Some 7) = (False, Some 7)"
    using parse_unsigned_exact[of "''256''" 7 7 7 7] by (simp add: spec_eval)
  moreover have "parse_u64 (Some ''18446744073709551615'') (Some 7) = (True, Some 18446744073709551615)"
    using parse_unsigned_exact[of "''18446744073709551615''" 7 7 7 7] by (simp add: spec_eval)
  moreover have "parse_u64 (Some ''18446744073709551616'') (Some 7) = (False, Some 7)"
    using parse_unsigned_exact[of "''18446744073709551616''" 7 7 7 7] by (simp add: spec_eval)
  ultimately show ?thesis
    using h by blast
qed

text \<open>
  C5.  For each signed width, the parser succeeds exactly on the strings made of an
  optional single \<open>+\<close> or \<open>-\<close> and one or more decimal digits whose signed value lies
  between the minimum and the maximum of the type, and then stores that value; a bare
  sign is rejected.  The minimum itself is accepted, one below it and one above the
  maximum are not.  \<open>parse_i8\<close> and \<open>parse_i16\<close> go through \<open>parse_i32\<close> and a range check.
\<close>

theorem parse_signed_exact:
  "parse_i8 (Some s) (Some o8) =
     (if signed_decimal (- 128) 127 (cstr s)
      then (True, Some (word_of_int (signed_value (cstr s)))) else (False, Some o8))
   \<and> parse_i16 (Some s) (Some o16) =
     (if signed_decimal (- 32768) 32767 (cstr s)
      then (True, Some (word_of_int (signed_value (cstr s)))) else (False, Some o16))
   \<and> parse_i32 (Some s) (Some o32) =
     (if signed_decimal (- 2147483648) 2147483647 (cstr s)
      then (True, Some (word_of_int (signed_value (cstr s)))) else (False, Some o32))
   \<and> parse_i64 (Some s) (Some o64) =
     (if signed_decimal (- 9223372036854775808) 9223372036854775807 (cstr s)
      then (True, Some (word_of_int (signed_value (cstr s)))) else (False, Some o64))
   \<and> (signed_decimal (- 128) 127 (cstr s) \<longrightarrow>
        sint (word_of_int (signed_value (cstr s)) :: 8 word) = signed_value (cstr s))
   \<and> (signed_decimal (- 32768) 32767 (cstr s) \<longrightarrow>
        sint (word_of_int (signed_value (cstr s)) :: 16 word) = signed_value (cstr s))
   \<and> (signed_decimal (- 2147483648) 2147483647 (cstr s) \<longrightarrow>
        sint (word_of_int (signed_value (cstr s)) :: 32 word) = signed_value (cstr s))
   \<and> (signed_decimal (- 9223372036854775808) 9223372036854775807 (cstr s) \<longrightarrow>
        sint (word_of_int (signed_value (cstr s)) :: 64 word) = signed_value (cstr s))"
proof -
  have v8: "sint (word_of_int (signed_value (cstr s)) :: 8 word) = signed_value (cstr s)"
    if "signed_decimal (- 128) 127 (cstr s)"
    using that by (intro sint_in_range) (simp_all add: signed_decimal_def)
  have v16: "sint (word_of_int (signed_value (cstr s)) :: 16 word) = signed_value (cstr s)"
    if "signed_decimal (- 32768) 32767 (cstr s)"
    using that by (intro sint_in_range) (simp_all add: signed_decimal_def)
  have v32: "sint (word_of_int (signed_value (cstr s)) :: 32 word) = signed_value (cstr s)"
    if "signed_decimal (- 2147483648) 2147483647 (cstr s)"
    using that by (intro sint_in_range) (simp_all add: signed_decimal_def)
  have v64: "sint (word_of_int (signed_value (cstr s)) :: 64 word) = signed_value (cstr s)"
    if "signed_decimal (- 9223372036854775808) 9223372036854775807 (cstr s)"
    using that by (intro sint_in_range) (simp_all add: signed_decimal_def)
  show ?thesis
    using v8 v16 v32 v64
    by (simp only: parse_i8_spec parse_i16_spec parse_i32_spec parse_i64_spec) blast
qed

theorem parse_signed_exact_witness:
  "parse_i32 (Some ''-2147483648'') (Some 7) = (True, Some (word_of_int (- 2147483648)))
   \<and> sint (word_of_int (signed_value (cstr ''-2147483648'')) :: 32 word) = - 2147483648
   \<and> parse_i32 (Some ''2147483648'') (Some 7) = (False, Some 7)
   \<and> parse_i32 (Some ''-2147483649'') (Some 7) = (False, Some 7)
   \<and> parse_i32 (Some ''-'') (Some 7) = (False, Some 7)
   \<and> parse_i32 (Some ''+42'') (Some 7) = (True, Some 42)
   \<and> parse_i8 (Some ''-128'') (Some 7) = (True, Some (word_of_int (- 128)))
   \<and> parse_i8 (Some ''128'') (Some 7) = (False, Some 7)"
proof -
  have h: "signed_decimal (- 2147483648) 2147483647 (cstr ''-2147483648'')"
    by (simp add: spec_eval)
  have "sint (word_of_int (signed_value (cstr ''-2147483648'')) :: 32 word)
      = signed_value (cstr ''-2147483648'')"
    using parse_signed_exact[of "''-2147483648''" 7 7 7 7] h by blast
  then have "sint (word_of_int (signed_value (cstr ''-2147483648'')) :: 32 word) = - 2147483648"
    by (simp add: spec_eval)
  moreover have "parse_i32 (Some ''-2147483648'') (Some 7) = (True, Some (word_of_int (- 2147483648)))"
    using parse_signed_exact[of "''-2147483648''" 7 7 7 7] by (simp add: spec_eval)
  moreover have "parse_i32 (Some ''2147483648'') (Some 7) = (False, Some 7)"
    using parse_signed_exact[of "''2147483648''" 7 7 7 7] by (simp add: spec_eval)
  moreover have "parse_i32 (Some ''-2147483649'') (Some 7) = (False, Some 7)"
    using parse_signed_exact[of "''-2147483649''" 7 7 7 7] by (simp add: spec_eval)
  moreover have "parse_i32 (Some ''-'') (Some 7) = (False, Some 7)"
    using parse_signed_exact[of "''-''" 7 7 7 7] by (simp add: spec_eval)
  moreover have "parse_i32 (Some ''+42'') (Some 7) = (True, Some 42)"
    using parse_signed_exact[of "''+42''" 7 7 7 7] by (simp add: spec_eval)
  moreover have "parse_i8 (Some ''-128'') (Some 7) = (True, Some (word_of_int (- 128)))"
    using parse_signed_exact[of "''-128''" 7 7 7 7] by (simp add: spec_eval)
  moreover have "parse_i8 (Some ''128'') (Some 7) = (False, Some 7)"
    using parse_signed_exact[of "''128''" 7 7 7 7] by (simp add: spec_eval)
  ultimately show ?thesis
    by blast
qed

section \<open>The hex parser\<close>

lemma nibbles_nat:
  assumes "l < (16::nat)"
  shows "push_bit 4 h OR l = h * 16 + l"
proof -
  have l: "take_bit 4 l = l"
    using assms by (simp add: take_bit_nat_eq_self)
  have "push_bit 4 h AND take_bit 4 l = 0"
    by (auto simp: bit_eq_iff bit_simps)
  then have "push_bit 4 h AND l = 0"
    by (simp only: l)
  then have "push_bit 4 h + l = push_bit 4 h OR l"
    by (rule disjunctive_add_eq_or)
  then show ?thesis
    by (simp add: push_bit_eq_mult)
qed

lemma nibbles_word:
  assumes "l < (16::nat)"
  shows "push_bit 4 (of_nat h :: 8 word) OR of_nat l = of_nat (h * 16 + l)"
proof -
  have "push_bit 4 (of_nat h :: 8 word) OR of_nat l = of_nat (push_bit 4 h OR l)"
    by (simp only: of_nat_push_bit of_nat_or_eq)
  then show ?thesis
    by (simp only: nibbles_nat[OF assms])
qed

lemma hex_value_less: "is_hex_digit c \<Longrightarrow> hex_value c < 16"
  by (auto simp: is_hex_digit_def hex_value_def char_in_range_def)

lemma ascii_to_hex_eq:
  "ascii_to_hex c = (if is_hex_digit c then Some (of_nat (hex_value c)) else None)"
proof (cases "char_in_range (CHR ''A'') c (CHR ''Z'')")
  case True
  then have "(of_char c :: nat) + 32 < 256"
    by (simp add: char_in_range_def)
  then have "of_char (char_of ((of_char c :: nat) + 32)) = (of_char c :: nat) + 32"
    by simp
  with True show ?thesis
    by (auto simp: ascii_to_hex_def ascii_tolower_def Let_def is_hex_digit_def hex_value_def
        char_in_range_def)
next
  case False
  then show ?thesis
    by (auto simp: ascii_to_hex_def ascii_tolower_def Let_def is_hex_digit_def hex_value_def
        char_in_range_def)
qed

lemma hex_loop_stop: "\<not> i < len div 2 \<Longrightarrow> hex_loop s len i mem buf = (True, mem)"
  by (subst hex_loop.simps) simp

lemma hex_loop_fail:
  "i < len div 2 \<Longrightarrow> \<not> (is_hex_digit (s ! (i * 2)) \<and> is_hex_digit (s ! (i * 2 + 1))) \<Longrightarrow>
   \<not> fst (hex_loop s len i mem buf)"
  by (subst hex_loop.simps) (auto simp: ascii_to_hex_eq)

lemma hex_loop_step:
  assumes "i < len div 2" "is_hex_digit (s ! (i * 2))" "is_hex_digit (s ! (i * 2 + 1))"
  shows "hex_loop s len i mem buf = hex_loop s len (i + 1) (mem(buf + i := hex_byte_at s i)) buf"
proof -
  have "push_bit 4 (of_nat (hex_value (s ! (i * 2))) :: 8 word)
          OR of_nat (hex_value (s ! (i * 2 + 1))) = hex_byte_at s i"
    using assms(3) by (simp only: hex_byte_at_def nibbles_word[OF hex_value_less])
  with assms show ?thesis
    by (subst hex_loop.simps) (simp add: ascii_to_hex_eq)
qed

lemma pair_range_split:
  fixes i n :: nat
  assumes "i < n"
  shows "(\<forall>k. i * 2 \<le> k \<and> k < n * 2 \<longrightarrow> P k) \<longleftrightarrow>
         P (i * 2) \<and> P (i * 2 + 1) \<and> (\<forall>k. (i + 1) * 2 \<le> k \<and> k < n * 2 \<longrightarrow> P k)"
  (is "?L \<longleftrightarrow> ?A \<and> ?B \<and> ?R")
proof
  assume l: ?L
  from assms have "i * 2 < n * 2" "i * 2 + 1 < n * 2" by simp_all
  with l have ?A ?B by simp_all
  moreover from l have ?R by simp
  ultimately show "?A \<and> ?B \<and> ?R" by blast
next
  assume r: "?A \<and> ?B \<and> ?R"
  show ?L
  proof (intro allI impI)
    fix k assume k: "i * 2 \<le> k \<and> k < n * 2"
    then consider "k = i * 2" | "k = i * 2 + 1" | "(i + 1) * 2 \<le> k" by fastforce
    then show "P k"
      using r k by cases auto
  qed
qed

lemma hex_loop_fst:
  "fst (hex_loop s len i mem buf) \<longleftrightarrow>
     (\<forall>k. i * 2 \<le> k \<and> k < len div 2 * 2 \<longrightarrow> is_hex_digit (s ! k))"
proof (induction "len div 2 - i" arbitrary: i mem)
  case 0
  then have "\<not> i < len div 2" by simp
  then show ?case
    by (auto simp: hex_loop_stop)
next
  case (Suc d)
  then have lt: "i < len div 2" and d: "d = len div 2 - (i + 1)" by simp_all
  show ?case
  proof (cases "is_hex_digit (s ! (i * 2)) \<and> is_hex_digit (s ! (i * 2 + 1))")
    case False
    have "\<not> fst (hex_loop s len i mem buf)"
      by (rule hex_loop_fail[OF lt False])
    moreover have "\<not> (\<forall>k. i * 2 \<le> k \<and> k < len div 2 * 2 \<longrightarrow> is_hex_digit (s ! k))"
      using False pair_range_split[OF lt, of "\<lambda>k. is_hex_digit (s ! k)"] by blast
    ultimately show ?thesis
      by blast
  next
    case True
    then have "hex_loop s len i mem buf
        = hex_loop s len (i + 1) (mem(buf + i := hex_byte_at s i)) buf"
      using hex_loop_step[OF lt] by blast
    then show ?thesis
      using Suc.hyps(1)[OF d] True pair_range_split[OF lt, of "\<lambda>k. is_hex_digit (s ! k)"]
      by simp
  qed
qed

lemma hex_loop_mem:
  "fst (hex_loop s len i mem buf) \<Longrightarrow>
   snd (hex_loop s len i mem buf) a =
     (if buf + i \<le> a \<and> a < buf + len div 2 then hex_byte_at s (a - buf) else mem a)"
proof (induction "len div 2 - i" arbitrary: i mem)
  case 0
  then have "\<not> i < len div 2" by simp
  then show ?case
    by (auto simp: hex_loop_stop)
next
  case (Suc d)
  then have lt: "i < len div 2" and d: "d = len div 2 - (i + 1)" by simp_all
  from Suc.prems have hd: "is_hex_digit (s ! (i * 2))" "is_hex_digit (s ! (i * 2 + 1))"
    using hex_loop_fail[OF lt, of s mem buf] by blast+
  have step: "hex_loop s len i mem buf
      = hex_loop s len (i + 1) (mem(buf + i := hex_byte_at s i)) buf"
    by (rule hex_loop_step[OF lt hd])
  with Suc.prems have "fst (hex_loop s len (i + 1) (mem(buf + i := hex_byte_at s i)) buf)"
    by simp
  from Suc.hyps(1)[OF d this] lt show ?case
    by (auto simp: step)
qed

text \<open>A failing conversion loop leaves every byte outside the bytes it has decoded alone.\<close>

lemma hex_loop_frame:
  "a < buf \<or> buf + len div 2 \<le> a \<Longrightarrow> snd (hex_loop s len i mem buf) a = mem a"
proof (induction "len div 2 - i" arbitrary: i mem)
  case 0
  then have "\<not> i < len div 2" by simp
  then show ?case
    by (simp add: hex_loop_stop)
next
  case (Suc d)
  then have lt: "i < len div 2" and d: "d = len div 2 - (i + 1)" by simp_all
  show ?case
  proof (cases "is_hex_digit (s ! (i * 2)) \<and> is_hex_digit (s ! (i * 2 + 1))")
    case False
    with lt show ?thesis
      by (subst hex_loop.simps) (auto simp: ascii_to_hex_eq)
  next
    case True
    then have step: "hex_loop s len i mem buf
        = hex_loop s len (i + 1) (mem(buf + i := hex_byte_at s i)) buf"
      using hex_loop_step[OF lt] by blast
    from Suc.hyps(1)[OF d Suc.prems] lt Suc.prems show ?thesis
      by (auto simp: step)
  qed
qed

lemma cstr_nth: "k < length (cstr s) \<Longrightarrow> cstr s ! k = s ! k"
  by (simp add: cstr_def takeWhile_nth)

lemma length_hex_bytes: "length (hex_bytes t) = length t div 2"
  by (induction t rule: hex_bytes.induct) simp_all

lemma hex_bytes_nth: "j < length t div 2 \<Longrightarrow> hex_bytes t ! j = hex_byte_at t j"
proof (induction t arbitrary: j rule: hex_bytes.induct)
  case (1 h l s)
  show ?case
  proof (cases j)
    case 0
    then show ?thesis by (simp add: hex_byte_at_def)
  next
    case (Suc j')
    with "1.prems" have "j' < length s div 2" by simp
    from "1.IH"[OF this] Suc show ?thesis
      by (simp add: hex_byte_at_def)
  qed
qed simp_all

lemma hex_byte_at_cstr:
  "j < length (cstr s) div 2 \<Longrightarrow> hex_byte_at s j = hex_byte_at (cstr s) j"
proof -
  assume "j < length (cstr s) div 2"
  then have "j * 2 < length (cstr s)" "j * 2 + 1 < length (cstr s)" by linarith+
  then show ?thesis
    by (simp only: hex_byte_at_def cstr_nth)
qed

lemma all_hex_cstr:
  assumes "even (length (cstr s))"
  shows "(\<forall>k. 0 * 2 \<le> k \<and> k < length (cstr s) div 2 * 2 \<longrightarrow> is_hex_digit (s ! k))
         \<longleftrightarrow> list_all is_hex_digit (cstr s)"
proof -
  from assms have e: "length (cstr s) div 2 * 2 = length (cstr s)" by simp
  have "(\<forall>k. 0 * 2 \<le> k \<and> k < length (cstr s) div 2 * 2 \<longrightarrow> is_hex_digit (s ! k))
      \<longleftrightarrow> (\<forall>k < length (cstr s). is_hex_digit (s ! k))"
    by (simp only: e) simp
  also have "\<dots> \<longleftrightarrow> (\<forall>k < length (cstr s). is_hex_digit (cstr s ! k))"
    using cstr_nth[of _ s] by auto
  finally show ?thesis
    by (simp only: list_all_length)
qed

lemma parse_hex_string_unfold:
  "parse_hex_string (Some s) mem (Some buf) max_len (Some ol) =
     (if cstr s = [] \<or> odd (length (cstr s)) \<or> length (cstr s) div 2 > max_len
      then (False, mem, Some ol)
      else if fst (hex_loop s (length (cstr s)) 0 mem buf)
      then (True, snd (hex_loop s (length (cstr s)) 0 mem buf), Some (length (cstr s) div 2))
      else (False, snd (hex_loop s (length (cstr s)) 0 mem buf), Some ol))"
proof (cases "hex_loop s (length (cstr s)) 0 mem buf")
  case (Pair ok mem')
  then show ?thesis
    by (cases ok) (simp_all add: parse_hex_string_def strlen_def Let_def odd_iff_mod_2_eq_one)
qed

lemma parse_hex_string_fst:
  "fst (parse_hex_string (Some s) mem (Some buf) max_len (Some ol)) \<longleftrightarrow> hex_string max_len (cstr s)"
proof (cases "cstr s = [] \<or> odd (length (cstr s)) \<or> length (cstr s) div 2 > max_len")
  case True
  then show ?thesis
    by (auto simp: parse_hex_string_unfold hex_string_def)
next
  case False
  then have e: "even (length (cstr s))" by simp
  have "fst (parse_hex_string (Some s) mem (Some buf) max_len (Some ol))
      = fst (hex_loop s (length (cstr s)) 0 mem buf)"
    using False by (simp add: parse_hex_string_unfold)
  also have "\<dots> = list_all is_hex_digit (cstr s)"
    by (simp only: hex_loop_fst all_hex_cstr[OF e])
  finally show ?thesis
    using False by (simp add: hex_string_def)
qed

lemma parse_hex_string_ok:
  assumes "hex_string max_len (cstr s)"
  shows "parse_hex_string (Some s) mem (Some buf) max_len (Some ol) =
     (True, store_bytes mem buf (hex_bytes (cstr s)), Some (length (cstr s) div 2))"
proof -
  from assms have ne: "cstr s \<noteq> []" and e: "even (length (cstr s))"
    and le: "length (cstr s) div 2 \<le> max_len"
    by (simp_all add: hex_string_def)
  have ok: "fst (hex_loop s (length (cstr s)) 0 mem buf)"
    using assms by (simp only: hex_loop_fst all_hex_cstr[OF e]) (simp add: hex_string_def)
  have "snd (hex_loop s (length (cstr s)) 0 mem buf) = store_bytes mem buf (hex_bytes (cstr s))"
  proof
    fix a
    show "snd (hex_loop s (length (cstr s)) 0 mem buf) a = store_bytes mem buf (hex_bytes (cstr s)) a"
    proof (cases "buf \<le> a \<and> a < buf + length (cstr s) div 2")
      case True
      then have j: "a - buf < length (cstr s) div 2" by linarith
      have "snd (hex_loop s (length (cstr s)) 0 mem buf) a = hex_byte_at s (a - buf)"
        using hex_loop_mem[OF ok, of a] True by simp
      also have "\<dots> = hex_byte_at (cstr s) (a - buf)"
        by (rule hex_byte_at_cstr[OF j])
      also have "\<dots> = hex_bytes (cstr s) ! (a - buf)"
        by (rule hex_bytes_nth[OF j, symmetric])
      finally show ?thesis
        using True by (simp add: store_bytes_def length_hex_bytes)
    next
      case False
      then have "snd (hex_loop s (length (cstr s)) 0 mem buf) a = mem a"
        using hex_loop_mem[OF ok, of a] by auto
      with False show ?thesis
        by (auto simp: store_bytes_def length_hex_bytes)
    qed
  qed
  with ok have "hex_loop s (length (cstr s)) 0 mem buf
      = (True, store_bytes mem buf (hex_bytes (cstr s)))"
    by (cases "hex_loop s (length (cstr s)) 0 mem buf") simp
  with ne e le show ?thesis
    by (simp add: parse_hex_string_unfold)
qed

lemma parse_hex_string_out_len:
  "\<not> fst (parse_hex_string s mem out_buf max_len out_len) \<Longrightarrow>
   snd (snd (parse_hex_string s mem out_buf max_len out_len)) = out_len"
  by (auto simp: parse_hex_string_def Let_def split: option.splits prod.splits bool.splits)

subsection \<open>The stores of the hex parser\<close>

lemma hex_loop_stores_stop: "\<not> i < len div 2 \<Longrightarrow> hex_loop_stores s len i = 0"
  by (subst hex_loop_stores.simps) simp

lemma hex_loop_stores_fail:
  "i < len div 2 \<Longrightarrow> \<not> (is_hex_digit (s ! (i * 2)) \<and> is_hex_digit (s ! (i * 2 + 1))) \<Longrightarrow>
   hex_loop_stores s len i = 0"
  by (subst hex_loop_stores.simps) (auto simp: ascii_to_hex_eq)

lemma hex_loop_stores_step:
  "i < len div 2 \<Longrightarrow> is_hex_digit (s ! (i * 2)) \<Longrightarrow> is_hex_digit (s ! (i * 2 + 1)) \<Longrightarrow>
   hex_loop_stores s len i = 1 + hex_loop_stores s len (i + 1)"
  by (subst hex_loop_stores.simps) (simp add: ascii_to_hex_eq)

lemma hex_loop_unchanged:
  "i < len div 2 \<Longrightarrow> \<not> (is_hex_digit (s ! (i * 2)) \<and> is_hex_digit (s ! (i * 2 + 1))) \<Longrightarrow>
   hex_loop s len i mem buf = (False, mem)"
  by (subst hex_loop.simps) (auto simp: ascii_to_hex_eq)

lemma hex_loop_stores_le: "hex_loop_stores s len i \<le> len div 2 - i"
proof (induction "len div 2 - i" arbitrary: i)
  case 0
  then have "\<not> i < len div 2" by simp
  then show ?case
    by (simp add: hex_loop_stores_stop)
next
  case (Suc d)
  then have lt: "i < len div 2" and d: "d = len div 2 - (i + 1)" by simp_all
  show ?case
  proof (cases "is_hex_digit (s ! (i * 2)) \<and> is_hex_digit (s ! (i * 2 + 1))")
    case False
    show ?thesis
      by (simp only: hex_loop_stores_fail[OF lt False] le0)
  next
    case True
    then have "hex_loop_stores s len i = 1 + hex_loop_stores s len (i + 1)"
      using hex_loop_stores_step[OF lt] by blast
    with Suc.hyps(1)[OF d] lt show ?thesis
      by linarith
  qed
qed

text \<open>
  The conversion loop stores exactly the bytes \<open>out_buf[i]\<close> to
  \<open>out_buf[i + hex_loop_stores s len i - 1]\<close>: whatever the memory held before, these cells
  hold the decoded bytes afterwards and every other cell is as it was.
\<close>

lemma hex_loop_stored:
  "snd (hex_loop s len i mem buf) a =
     (if buf + i \<le> a \<and> a < buf + i + hex_loop_stores s len i then hex_byte_at s (a - buf)
      else mem a)"
proof (induction "len div 2 - i" arbitrary: i mem)
  case 0
  then have "\<not> i < len div 2" by simp
  then show ?case
    by (auto simp: hex_loop_stop hex_loop_stores_stop)
next
  case (Suc d)
  then have lt: "i < len div 2" and d: "d = len div 2 - (i + 1)" by simp_all
  show ?case
  proof (cases "is_hex_digit (s ! (i * 2)) \<and> is_hex_digit (s ! (i * 2 + 1))")
    case False
    show ?thesis
      by (simp only: hex_loop_unchanged[OF lt False] hex_loop_stores_fail[OF lt False]) auto
  next
    case True
    then have step: "hex_loop s len i mem buf
        = hex_loop s len (i + 1) (mem(buf + i := hex_byte_at s i)) buf"
      and n: "hex_loop_stores s len i = 1 + hex_loop_stores s len (i + 1)"
      using hex_loop_step[OF lt] hex_loop_stores_step[OF lt] by blast+
    have "snd (hex_loop s len (i + 1) (mem(buf + i := hex_byte_at s i)) buf) a =
       (if buf + (i + 1) \<le> a \<and> a < buf + (i + 1) + hex_loop_stores s len (i + 1)
        then hex_byte_at s (a - buf) else (mem(buf + i := hex_byte_at s i)) a)"
      by (rule Suc.hyps(1)[OF d])
    then show ?thesis
      by (simp only: step n) auto
  qed
qed

lemma hex_loop_stores_all:
  "fst (hex_loop s len i mem buf) \<Longrightarrow> hex_loop_stores s len i = len div 2 - i"
proof (induction "len div 2 - i" arbitrary: i mem)
  case 0
  then have "\<not> i < len div 2" by simp
  with 0 show ?case
    by (simp add: hex_loop_stores_stop)
next
  case (Suc d)
  then have lt: "i < len div 2" and d: "d = len div 2 - (i + 1)" by simp_all
  from Suc.prems have hd: "is_hex_digit (s ! (i * 2))" "is_hex_digit (s ! (i * 2 + 1))"
    using hex_loop_fail[OF lt, of s mem buf] by blast+
  have step: "hex_loop s len i mem buf
      = hex_loop s len (i + 1) (mem(buf + i := hex_byte_at s i)) buf"
    by (rule hex_loop_step[OF lt hd])
  with Suc.prems have "fst (hex_loop s len (i + 1) (mem(buf + i := hex_byte_at s i)) buf)"
    by simp
  from Suc.hyps(1)[OF d this] lt show ?case
    by (simp only: hex_loop_stores_step[OF lt hd])
qed

lemma hex_stores_unfold:
  "hex_stores (Some s) max_len =
     (if cstr s = [] \<or> odd (length (cstr s)) \<or> length (cstr s) div 2 > max_len then 0
      else hex_loop_stores s (length (cstr s)) 0)"
  by (simp add: hex_stores_def strlen_def Let_def odd_iff_mod_2_eq_one)

text \<open>
  A call of \<open>parse_hex_string\<close> stores exactly the bytes \<open>out_buf[0]\<close> to
  \<open>out_buf[hex_stores s max_len - 1]\<close>, at most \<open>max_len\<close> of them, and all it announces in
  \<open>*out_len\<close> when it returns true.
\<close>

lemma parse_hex_string_stored:
  "fst (snd (parse_hex_string (Some s) mem (Some buf) max_len (Some ol))) a =
     (if buf \<le> a \<and> a < buf + hex_stores (Some s) max_len then hex_byte_at s (a - buf)
      else mem a)"
proof (cases "cstr s = [] \<or> odd (length (cstr s)) \<or> length (cstr s) div 2 > max_len")
  case True
  then show ?thesis
    by (auto simp: parse_hex_string_unfold hex_stores_unfold)
next
  case False
  have "fst (snd (parse_hex_string (Some s) mem (Some buf) max_len (Some ol)))
      = snd (hex_loop s (length (cstr s)) 0 mem buf)"
    using False by (simp add: parse_hex_string_unfold)
  moreover have "hex_stores (Some s) max_len = hex_loop_stores s (length (cstr s)) 0"
    using False by (simp add: hex_stores_unfold)
  ultimately show ?thesis
    using hex_loop_stored[of s "length (cstr s)" 0 mem buf a] by simp
qed

lemma hex_stores_le: "hex_stores s max_len \<le> max_len"
proof (cases s)
  case None
  then show ?thesis
    by (simp add: hex_stores_def)
next
  case (Some t)
  show ?thesis
    using hex_loop_stores_le[of t "length (cstr t)" 0]
    by (simp add: Some hex_stores_unfold)
qed

lemma hex_stores_ok:
  assumes "fst (parse_hex_string (Some s) mem (Some buf) max_len (Some ol))"
  shows "snd (snd (parse_hex_string (Some s) mem (Some buf) max_len (Some ol)))
           = Some (hex_stores (Some s) max_len)"
proof (cases "cstr s = [] \<or> odd (length (cstr s)) \<or> length (cstr s) div 2 > max_len")
  case True
  with assms show ?thesis
    by (simp add: parse_hex_string_unfold)
next
  case False
  with assms have ok: "fst (hex_loop s (length (cstr s)) 0 mem buf)"
    by (simp add: parse_hex_string_unfold split: if_splits)
  from hex_loop_stores_all[OF ok] False ok show ?thesis
    by (simp add: parse_hex_string_unfold hex_stores_unfold)
qed

section \<open>Hex parsing and atomicity: the claims\<close>

text \<open>
  C6.  \<open>parse_hex_string\<close> returns true exactly when the string is non-empty, of even
  length, made of hex digits of either case, and decodes to at most \<open>max_len\<close> bytes.
  It then stores, from \<open>out_buf\<close> on, one byte per pair of digits, the first digit of the
  pair being the high nibble, and sets \<open>*out_len\<close> to the number of pairs.  A string of
  odd length is rejected whatever it holds, and so is every string when \<open>max_len\<close> is 0.
\<close>

theorem parse_hex_string_exact:
  "fst (parse_hex_string (Some s) mem (Some buf) max_len (Some ol)) = hex_string max_len (cstr s)
   \<and> (hex_string max_len (cstr s) \<longrightarrow>
        parse_hex_string (Some s) mem (Some buf) max_len (Some ol) =
          (True, store_bytes mem buf (hex_bytes (cstr s)), Some (length (cstr s) div 2)))
   \<and> length (hex_bytes (cstr s)) = length (cstr s) div 2
   \<and> (\<forall>i < length (cstr s) div 2.
        hex_bytes (cstr s) ! i
          = of_nat (hex_value (cstr s ! (i * 2)) * 16 + hex_value (cstr s ! (i * 2 + 1))))
   \<and> (odd (length (cstr s)) \<longrightarrow>
        \<not> fst (parse_hex_string (Some s) mem (Some buf) max_len (Some ol)))
   \<and> \<not> fst (parse_hex_string (Some s) mem (Some buf) 0 (Some ol))"
proof -
  have "\<not> hex_string 0 (cstr s)"
  proof
    assume "hex_string 0 (cstr s)"
    then have "length (cstr s) div 2 = 0" "even (length (cstr s))" "cstr s \<noteq> []"
      by (simp_all add: hex_string_def)
    then show False
      by (cases "cstr s") auto
  qed
  moreover have "odd (length (cstr s)) \<Longrightarrow> \<not> hex_string max_len (cstr s)"
    by (simp add: hex_string_def)
  moreover have "\<forall>i < length (cstr s) div 2.
        hex_bytes (cstr s) ! i
          = of_nat (hex_value (cstr s ! (i * 2)) * 16 + hex_value (cstr s ! (i * 2 + 1)))"
    by (simp add: hex_bytes_nth hex_byte_at_def)
  ultimately show ?thesis
    using parse_hex_string_ok[of max_len s mem buf ol]
    by (simp only: parse_hex_string_fst length_hex_bytes) blast
qed

lemmas hex_eval =
  hex_string_def is_hex_digit_def hex_value_def char_in_range_def cstr_def NUL_def
  store_bytes_def

theorem parse_hex_string_exact_witness:
  "hex_string 2 (cstr ''0aFf'')
   \<and> parse_hex_string (Some ''0aFf'') (\<lambda>_. 0) (Some 3) 2 (Some 7)
       = (True, store_bytes (\<lambda>_. 0) 3 [0x0A, 0xFF], Some 2)
   \<and> \<not> fst (parse_hex_string (Some ''ABC'') (\<lambda>_. 0) (Some 3) 2 (Some 7))
   \<and> \<not> fst (parse_hex_string (Some ''AABBCC'') (\<lambda>_. 0) (Some 3) 2 (Some 7))
   \<and> \<not> fst (parse_hex_string (Some ''0G'') (\<lambda>_. 0) (Some 3) 2 (Some 7))"
proof -
  have h: "hex_string 2 (cstr ''0aFf'')"
    by (simp add: hex_eval)
  have "parse_hex_string (Some ''0aFf'') (\<lambda>_. 0) (Some 3) 2 (Some 7)
       = (True, store_bytes (\<lambda>_. 0) 3 (hex_bytes (cstr ''0aFf'')), Some (length (cstr ''0aFf'') div 2))"
    using parse_hex_string_exact[of "''0aFf''" "\<lambda>_. 0" 3 2 7] h by blast
  moreover have "hex_bytes (cstr ''0aFf'') = [0x0A, 0xFF]" "length (cstr ''0aFf'') div 2 = 2"
    by (simp_all add: hex_eval)
  ultimately have "parse_hex_string (Some ''0aFf'') (\<lambda>_. 0) (Some 3) 2 (Some 7)
       = (True, store_bytes (\<lambda>_. 0) 3 [0x0A, 0xFF], Some 2)"
    by simp
  moreover have "\<not> fst (parse_hex_string (Some ''ABC'') (\<lambda>_. 0) (Some 3) 2 (Some 7))"
    using parse_hex_string_exact[of "''ABC''" "\<lambda>_. 0" 3 2 7] by (simp add: hex_eval)
  moreover have "\<not> fst (parse_hex_string (Some ''AABBCC'') (\<lambda>_. 0) (Some 3) 2 (Some 7))"
    using parse_hex_string_exact[of "''AABBCC''" "\<lambda>_. 0" 3 2 7] by (simp add: hex_eval)
  moreover have "\<not> fst (parse_hex_string (Some ''0G'') (\<lambda>_. 0) (Some 3) 2 (Some 7))"
    using parse_hex_string_exact[of "''0G''" "\<lambda>_. 0" 3 2 7] by (simp add: hex_eval)
  ultimately show ?thesis
    using h by blast
qed

text \<open>
  C10.  \<open>parse_hex_string\<close> is not atomic on failure: on \<open>"0AZZ"\<close> it returns false after it
  has stored the byte \<open>0x0A\<close> of the first pair in the output buffer.  \<open>*out_len\<close>, however,
  is written on success only: whenever the parser returns false, \<open>*out_len\<close> is what it was.
\<close>

theorem parse_hex_string_not_atomic:
  "(\<not> fst (parse_hex_string s mem out_buf max_len out_len) \<longrightarrow>
      snd (snd (parse_hex_string s mem out_buf max_len out_len)) = out_len)
   \<and> \<not> fst (parse_hex_string (Some ''0AZZ'') (\<lambda>_. 0) (Some 0) 64 (Some 7))
   \<and> fst (snd (parse_hex_string (Some ''0AZZ'') (\<lambda>_. 0) (Some 0) 64 (Some 7))) 0 = 0x0A
   \<and> fst (snd (parse_hex_string (Some ''0AZZ'') (\<lambda>_. 0) (Some 0) 64 (Some 7))) 0
        \<noteq> (\<lambda>_. 0) (0 :: nat)"
proof -
  have z: "\<not> is_hex_digit (CHR ''Z'')" and a: "is_hex_digit (CHR ''0'')" "is_hex_digit (CHR ''A'')"
    by (simp_all add: is_hex_digit_def char_in_range_def)
  have l: "hex_loop ''0AZZ'' 4 0 (\<lambda>_. 0) 0 = (False, (\<lambda>_. 0)(0 := 0x0A))"
    using z a
    by (simp add: hex_loop.simps[of _ _ 0] hex_loop.simps[of _ _ "Suc 0"] ascii_to_hex_eq
        hex_value_def char_in_range_def)
  have c: "cstr ''0AZZ'' = ''0AZZ''"
    by (simp add: cstr_def NUL_def)
  have len: "length ''0AZZ'' = 4"
    by simp
  have "parse_hex_string (Some ''0AZZ'') (\<lambda>_. 0) (Some 0) 64 (Some 7)
      = (False, (\<lambda>_. 0)(0 := 0x0A), Some 7)"
    by (simp only: parse_hex_string_unfold c len l) simp
  then show ?thesis
    using parse_hex_string_out_len[of s mem out_buf max_len out_len] by simp
qed

theorem parse_hex_string_not_atomic_witness:
  "snd (snd (parse_hex_string (Some ''0AZZ'') (\<lambda>_. 0) (Some 0) 64 (Some 7))) = Some 7"
  using parse_hex_string_not_atomic[of "Some ''0AZZ''" "\<lambda>_. 0" "Some 0" 64 "Some 7"]
  by blast

text \<open>
  C9.  Every scalar parser is atomic on failure: whenever it returns false, the cell
  \<open>out\<close> points to holds what it held before the call (and a NULL \<open>out\<close> stays NULL).
\<close>

theorem scalar_parsers_atomic:
  "(\<not> fst (parse_u8 s o8) \<longrightarrow> snd (parse_u8 s o8) = o8)
   \<and> (\<not> fst (parse_u16 s o16) \<longrightarrow> snd (parse_u16 s o16) = o16)
   \<and> (\<not> fst (parse_u32 s o32) \<longrightarrow> snd (parse_u32 s o32) = o32)
   \<and> (\<not> fst (parse_u64 s o64) \<longrightarrow> snd (parse_u64 s o64) = o64)
   \<and> (\<not> fst (parse_i8 s o8) \<longrightarrow> snd (parse_i8 s o8) = o8)
   \<and> (\<not> fst (parse_i16 s o16) \<longrightarrow> snd (parse_i16 s o16) = o16)
   \<and> (\<not> fst (parse_i32 s o32) \<longrightarrow> snd (parse_i32 s o32) = o32)
   \<and> (\<not> fst (parse_i64 s o64) \<longrightarrow> snd (parse_i64 s o64) = o64)
   \<and> (\<not> fst (parse_boolean_token s ob) \<longrightarrow> snd (parse_boolean_token s ob) = ob)"
proof -
  have "\<not> fst (parse_u8 s o8) \<longrightarrow> snd (parse_u8 s o8) = o8"
    by (auto simp: parse_u8_def split: option.splits)
  moreover have "\<not> fst (parse_u16 s o16) \<longrightarrow> snd (parse_u16 s o16) = o16"
    by (auto simp: parse_u16_def split: option.splits)
  moreover have "\<not> fst (parse_u32 s o32) \<longrightarrow> snd (parse_u32 s o32) = o32"
    by (auto simp: parse_u32_def split: option.splits)
  moreover have "\<not> fst (parse_u64 s o64) \<longrightarrow> snd (parse_u64 s o64) = o64"
    by (auto simp: parse_u64_def split: option.splits)
  moreover have "\<not> fst (parse_i8 s o8) \<longrightarrow> snd (parse_i8 s o8) = o8"
    by (auto simp: parse_i8_def split: option.splits prod.splits bool.splits)
  moreover have "\<not> fst (parse_i16 s o16) \<longrightarrow> snd (parse_i16 s o16) = o16"
    by (auto simp: parse_i16_def split: option.splits prod.splits bool.splits)
  moreover have "\<not> fst (parse_i32 s o32) \<longrightarrow> snd (parse_i32 s o32) = o32"
    by (auto simp: parse_i32_def Let_def split: option.splits)
  moreover have "\<not> fst (parse_i64 s o64) \<longrightarrow> snd (parse_i64 s o64) = o64"
    by (auto simp: parse_i64_def Let_def split: option.splits)
  moreover have "\<not> fst (parse_boolean_token s ob) \<longrightarrow> snd (parse_boolean_token s ob) = ob"
    by (auto simp: parse_boolean_token_def Let_def split: option.splits)
  ultimately show ?thesis
    by blast
qed

theorem scalar_parsers_atomic_witness:
  "\<not> fst (parse_u8 (Some ''25x'') (Some 7)) \<and> snd (parse_u8 (Some ''25x'') (Some 7)) = Some 7
   \<and> \<not> fst (parse_i32 (Some ''-12a'') (Some 9)) \<and> snd (parse_i32 (Some ''-12a'') (Some 9)) = Some 9
   \<and> \<not> fst (parse_boolean_token (Some ''tru'') (Some True))
   \<and> snd (parse_boolean_token (Some ''tru'') (Some True)) = Some True"
proof -
  have f8: "\<not> fst (parse_u8 (Some ''25x'') (Some 7))"
    by (simp add: parse_u8_spec spec_eval)
  have f32: "\<not> fst (parse_i32 (Some ''-12a'') (Some 9))"
    by (simp add: parse_i32_spec spec_eval)
  have fb: "\<not> fst (parse_boolean_token (Some ''tru'') (Some True))"
    by code_simp
  note a = scalar_parsers_atomic[of "Some ''25x''" "Some 7" _ _ _ _]
    and b = scalar_parsers_atomic[of "Some ''-12a''" _ _ "Some 9" _ _]
    and c = scalar_parsers_atomic[of "Some ''tru''" _ _ _ _ "Some True"]
  from a f8 have "snd (parse_u8 (Some ''25x'') (Some 7)) = Some 7" by blast
  moreover from b f32 have "snd (parse_i32 (Some ''-12a'') (Some 9)) = Some 9" by blast
  moreover from c fb have "snd (parse_boolean_token (Some ''tru'') (Some True)) = Some True" by blast
  ultimately show ?thesis
    using f8 f32 fb by blast
qed

section \<open>The tokenizer\<close>

lemma split_ws_Nil [simp]: "split_ws [] = []"
  by (subst split_ws.simps) simp

lemma split_ws_ws: "IS_WHITESPACE c \<Longrightarrow> split_ws (c # r) = split_ws r"
  by (subst split_ws.simps, subst (2) split_ws.simps) simp

lemma split_ws_token:
  "\<not> IS_WHITESPACE c \<Longrightarrow>
   split_ws (c # r) =
     (c # takeWhile (\<lambda>c. \<not> IS_WHITESPACE c) r) # split_ws (dropWhile (\<lambda>c. \<not> IS_WHITESPACE c) r)"
  by (subst split_ws.simps) simp

lemma split_ws_empty_iff: "split_ws r = [] \<longleftrightarrow> dropWhile IS_WHITESPACE r = []"
proof (cases "dropWhile IS_WHITESPACE r")
  case Nil
  have "split_ws r = []"
    by (subst split_ws.simps) (simp only: Nil list.case)
  with Nil show ?thesis by simp
next
  case (Cons c t)
  have "split_ws r \<noteq> []"
    by (subst split_ws.simps) (simp only: Cons list.case, simp)
  with Cons show ?thesis by simp
qed

lemma split_ws_dropWhile: "split_ws (dropWhile IS_WHITESPACE r) = split_ws r"
  by (induction r) (simp_all add: split_ws_ws)

lemma pending_tokens_Nil [simp]: "pending_tokens it [] = 0"
  by (simp add: pending_tokens_def)

lemma pending_tokens_ws: "IS_WHITESPACE c \<Longrightarrow> pending_tokens it (c # r) = pending_tokens False r"
  by (simp add: pending_tokens_def split_ws_ws)

lemma pending_tokens_start:
  "\<not> IS_WHITESPACE c \<Longrightarrow> pending_tokens False (c # r) = Suc (pending_tokens True r)"
  by (simp add: pending_tokens_def split_ws_token)

lemma pending_tokens_inside:
  "\<not> IS_WHITESPACE c \<Longrightarrow> pending_tokens True (c # r) = pending_tokens True r"
  by (simp add: pending_tokens_def)

lemma pending_tokens_all: "pending_tokens False r = length (split_ws r)"
  by (simp add: pending_tokens_def)

text \<open>Reading the string at an index of a buffer.\<close>

lemma cstr_drop_end: "\<not> (ptr < length line \<and> line ! ptr \<noteq> NUL) \<Longrightarrow> cstr (drop ptr line) = []"
  by (cases "ptr < length line") (simp_all add: cstr_Cons Cons_nth_drop_Suc[symmetric])

lemma cstr_drop_step:
  "ptr < length line \<Longrightarrow> line ! ptr \<noteq> NUL \<Longrightarrow>
   cstr (drop ptr line) = line ! ptr # cstr (drop (ptr + 1) line)"
  by (simp add: cstr_Cons Cons_nth_drop_Suc[symmetric])

lemma cstr_drop_empty_iff:
  "cstr (drop ptr line) = [] \<longleftrightarrow> \<not> (ptr < length line \<and> line ! ptr \<noteq> NUL)"
proof (cases "ptr < length line \<and> line ! ptr \<noteq> NUL")
  case True
  then show ?thesis by (simp add: cstr_drop_step)
next
  case False
  then show ?thesis by (simp add: cstr_drop_end)
qed

lemma drop_update_below: "p < q \<Longrightarrow> drop q (line[p := c]) = drop q line"
  by (simp add: drop_update_cancel)

lemma skip_token_loop_spec:
  "cstr (drop (skip_token_loop line ptr) line)
     = dropWhile (\<lambda>c. \<not> IS_WHITESPACE c) (cstr (drop ptr line))"
proof (induction line ptr rule: skip_token_loop.induct)
  case (1 line ptr)
  show ?case
  proof (cases "ptr < length line \<and> line ! ptr \<noteq> NUL")
    case False
    then show ?thesis
      by (subst skip_token_loop.simps) (auto simp: cstr_drop_end)
  next
    case True
    then show ?thesis
      using "1.IH"
      by (subst skip_token_loop.simps) (simp add: cstr_drop_step)
  qed
qed

lemma trailing_loop_spec:
  "trailing_loop line ptr = (line', ptr') \<Longrightarrow>
   cstr (drop ptr' line') = dropWhile IS_WHITESPACE (cstr (drop ptr line))"
proof (induction line ptr rule: trailing_loop.induct)
  case (1 line ptr)
  show ?case
  proof (cases "ptr < length line \<and> line ! ptr \<noteq> NUL")
    case False
    with "1.prems" show ?thesis
      by (subst (asm) trailing_loop.simps) (auto simp: cstr_drop_end)
  next
    case True
    show ?thesis
    proof (cases "IS_WHITESPACE (line ! ptr)")
      case False
      with True "1.prems" show ?thesis
        by (subst (asm) trailing_loop.simps) (auto simp: cstr_drop_step)
    next
      case ws: True
      with True "1.prems" have "trailing_loop (line[ptr := NUL]) (ptr + 1) = (line', ptr')"
        by (subst (asm) trailing_loop.simps) simp
      from "1.IH"[OF _ this] True ws show ?thesis
        by (simp add: cstr_drop_step drop_update_below)
    qed
  qed
qed

lemma tokenize_loop_stop:
  "\<not> (ptr < length line \<and> line ! ptr \<noteq> NUL \<and> count < MAX_TOKENS) \<Longrightarrow>
   tokenize_loop line tokens count ptr it = (line, tokens, count, ptr, it)"
  by (subst tokenize_loop.simps) auto

lemma tokenize_loop_ws:
  "ptr < length line \<Longrightarrow> line ! ptr \<noteq> NUL \<Longrightarrow> count < MAX_TOKENS \<Longrightarrow>
   IS_WHITESPACE (line ! ptr) \<Longrightarrow>
   tokenize_loop line tokens count ptr it
     = tokenize_loop (line[ptr := NUL]) tokens count (ptr + 1) False"
  by (subst tokenize_loop.simps) simp

lemma tokenize_loop_start:
  "ptr < length line \<Longrightarrow> line ! ptr \<noteq> NUL \<Longrightarrow> count < MAX_TOKENS \<Longrightarrow>
   \<not> IS_WHITESPACE (line ! ptr) \<Longrightarrow> \<not> it \<Longrightarrow>
   tokenize_loop line tokens count ptr it
     = tokenize_loop line (tokens[count := Some ptr]) (count + 1) (ptr + 1) True"
  by (subst tokenize_loop.simps) simp

lemma tokenize_loop_inside:
  "ptr < length line \<Longrightarrow> line ! ptr \<noteq> NUL \<Longrightarrow> count < MAX_TOKENS \<Longrightarrow>
   \<not> IS_WHITESPACE (line ! ptr) \<Longrightarrow> it \<Longrightarrow>
   tokenize_loop line tokens count ptr it
     = tokenize_loop line tokens count (ptr + 1) it"
  by (subst tokenize_loop.simps) simp

text \<open>
  Where the first loop stops: with all the tokens counted and the string consumed when
  there are fewer than \<open>MAX_TOKENS\<close>, else inside token number \<open>MAX_TOKENS\<close>.
\<close>

lemma tokenize_loop_count:
  assumes "tokenize_loop line tokens count ptr it = (line1, tokens1, count1, ptr1, it1)"
    and "count \<le> MAX_TOKENS" and "count = MAX_TOKENS \<longrightarrow> it"
  shows "(count + pending_tokens it (cstr (drop ptr line)) < MAX_TOKENS \<longrightarrow>
            count1 = count + pending_tokens it (cstr (drop ptr line))
            \<and> cstr (drop ptr1 line1) = [])
       \<and> (MAX_TOKENS \<le> count + pending_tokens it (cstr (drop ptr line)) \<longrightarrow>
            count1 = MAX_TOKENS \<and> it1
            \<and> pending_tokens True (cstr (drop ptr1 line1))
                = count + pending_tokens it (cstr (drop ptr line)) - MAX_TOKENS)"
  using assms
proof (induction line tokens count ptr it rule: tokenize_loop.induct)
  case (1 line tokens count ptr it)
  show ?case
  proof (cases "ptr < length line \<and> line ! ptr \<noteq> NUL")
    case False
    then have r: "cstr (drop ptr line) = []"
      by (rule cstr_drop_end)
    from False "1.prems"(1) have res: "line1 = line" "count1 = count" "ptr1 = ptr" "it1 = it"
      by (simp_all add: tokenize_loop_stop)
    from res r "1.prems"(2,3) show ?thesis
      by auto
  next
    case inb: True
    then have r: "cstr (drop ptr line) = line ! ptr # cstr (drop (ptr + 1) line)"
      by (simp add: cstr_drop_step)
    show ?thesis
    proof (cases "count < MAX_TOKENS")
      case False
      with "1.prems"(2,3) have c: "count = MAX_TOKENS" and it: "it" by simp_all
      from False "1.prems"(1) have res: "line1 = line" "count1 = count" "ptr1 = ptr" "it1 = it"
        by (simp_all add: tokenize_loop_stop)
      from res c it show ?thesis
        by simp
    next
      case lt: True
      show ?thesis
      proof (cases "IS_WHITESPACE (line ! ptr)")
        case ws: True
        have eq: "tokenize_loop (line[ptr := NUL]) tokens count (ptr + 1) False
            = (line1, tokens1, count1, ptr1, it1)"
          using "1.prems"(1) inb lt ws by (simp add: tokenize_loop_ws)
        have k: "pending_tokens it (cstr (drop ptr line))
            = pending_tokens False (cstr (drop (ptr + 1) (line[ptr := NUL])))"
          using ws by (simp add: r pending_tokens_ws drop_update_below)
        from "1.IH"(1)[OF _ ws eq] inb lt "1.prems"(2) show ?thesis
          by (simp add: k)
      next
        case nws: False
        show ?thesis
        proof (cases it)
          case False
          have eq: "tokenize_loop line (tokens[count := Some ptr]) (count + 1) (ptr + 1) True
              = (line1, tokens1, count1, ptr1, it1)"
            using "1.prems"(1) inb lt nws False by (simp add: tokenize_loop_start)
          have k: "count + pending_tokens it (cstr (drop ptr line))
              = (count + 1) + pending_tokens True (cstr (drop (ptr + 1) line))"
            using nws False by (simp add: r pending_tokens_start)
          have "(count + 1 + pending_tokens True (cstr (drop (ptr + 1) line)) < MAX_TOKENS \<longrightarrow>
                count1 = count + 1 + pending_tokens True (cstr (drop (ptr + 1) line))
                \<and> cstr (drop ptr1 line1) = [])
              \<and> (MAX_TOKENS \<le> count + 1 + pending_tokens True (cstr (drop (ptr + 1) line)) \<longrightarrow>
                count1 = MAX_TOKENS \<and> it1
                \<and> pending_tokens True (cstr (drop ptr1 line1))
                    = count + 1 + pending_tokens True (cstr (drop (ptr + 1) line)) - MAX_TOKENS)"
            using "1.IH"(2)[OF _ nws _ eq] inb lt False by simp
          then show ?thesis
            unfolding k .
        next
          case True
          have eq: "tokenize_loop line tokens count (ptr + 1) it
              = (line1, tokens1, count1, ptr1, it1)"
            using "1.prems"(1) inb lt nws True by (simp add: tokenize_loop_inside)
          have k: "pending_tokens it (cstr (drop ptr line))
              = pending_tokens it (cstr (drop (ptr + 1) line))"
            using nws True by (simp add: r pending_tokens_inside)
          have "(count + pending_tokens it (cstr (drop (ptr + 1) line)) < MAX_TOKENS \<longrightarrow>
                count1 = count + pending_tokens it (cstr (drop (ptr + 1) line))
                \<and> cstr (drop ptr1 line1) = [])
              \<and> (MAX_TOKENS \<le> count + pending_tokens it (cstr (drop (ptr + 1) line)) \<longrightarrow>
                count1 = MAX_TOKENS \<and> it1
                \<and> pending_tokens True (cstr (drop ptr1 line1))
                    = count + pending_tokens it (cstr (drop (ptr + 1) line)) - MAX_TOKENS)"
            using "1.IH"(3)[OF _ nws _ eq] inb lt True "1.prems"(2) by simp
          then show ?thesis
            unfolding k .
        qed
      qed
    qed
  qed
qed

lemma split_ws_all_ws: "list_all IS_WHITESPACE w \<Longrightarrow> split_ws w = []"
  by (simp add: split_ws_empty_iff list_all_iff)

lemma split_ws_append_ws:
  "list_all IS_WHITESPACE w \<Longrightarrow> split_ws (s @ w) = split_ws s"
proof (induction s rule: length_induct)
  case (1 s)
  show ?case
  proof (cases s)
    case Nil
    with "1.prems" show ?thesis by (simp add: split_ws_all_ws)
  next
    case (Cons c r)
    show ?thesis
    proof (cases "IS_WHITESPACE c")
      case True
      with Cons "1.IH" "1.prems" show ?thesis
        by (simp add: split_ws_ws)
    next
      case False
      let ?nws = "\<lambda>c. \<not> IS_WHITESPACE c"
      have step: "split_ws ((c # r) @ w)
          = (c # takeWhile ?nws (r @ w)) # split_ws (dropWhile ?nws (r @ w))"
        and step': "split_ws (c # r) = (c # takeWhile ?nws r) # split_ws (dropWhile ?nws r)"
        using False by (simp_all add: split_ws_token)
      show ?thesis
      proof (cases "\<forall>x\<in>set r. ?nws x")
        case True
        from "1.prems" have tw: "takeWhile ?nws w = []" and dw: "dropWhile ?nws w = w"
          by (cases w; simp)+
        from True have t1: "takeWhile ?nws r = r" and d1: "dropWhile ?nws r = []"
          by simp_all
        from True have t2: "takeWhile ?nws (r @ w) = r"
          by (simp add: takeWhile_append2 tw)
        from True have d2: "dropWhile ?nws (r @ w) = w"
          by (simp add: dropWhile_append2 dw)
        have "split_ws w = []"
          using "1.prems" by (rule split_ws_all_ws)
        then show ?thesis
          by (simp only: Cons step step' t1 t2 d1 d2 split_ws_Nil)
      next
        case ex: False
        then have t2: "takeWhile ?nws (r @ w) = takeWhile ?nws r"
          and d2: "dropWhile ?nws (r @ w) = dropWhile ?nws r @ w"
          by (auto simp: takeWhile_append1 dropWhile_append1)
        have "length (dropWhile ?nws r) < length s"
          using Cons length_dropWhile_le[of ?nws r] by simp
        then have "split_ws (dropWhile ?nws r @ w) = split_ws (dropWhile ?nws r)"
          using "1.IH" "1.prems" by blast
        then show ?thesis
          by (simp only: Cons step step' t2 d2)
      qed
    qed
  qed
qed

lemma ws_not_NUL: "IS_WHITESPACE c \<Longrightarrow> c \<noteq> NUL"
  by (auto simp: IS_WHITESPACE_def NUL_def)

lemma cstr_append_ws:
  assumes "list_all IS_WHITESPACE w"
  shows "cstr (s @ w) = cstr s @ (if NUL \<in> set s then [] else w)"
proof (cases "NUL \<in> set s")
  case True
  then have "takeWhile (\<lambda>c. c \<noteq> NUL) (s @ w) = takeWhile (\<lambda>c. c \<noteq> NUL) s"
    by (intro takeWhile_append1[of NUL]) simp_all
  with True show ?thesis
    by (simp add: cstr_def)
next
  case False
  from assms have "NUL \<notin> set w"
    using ws_not_NUL by (auto simp: list_all_iff)
  then have w: "cstr w = w"
    by (rule cstr_no_NUL)
  from False have s: "cstr s = s"
    by (rule cstr_no_NUL)
  from False have "takeWhile (\<lambda>c. c \<noteq> NUL) (s @ w) = s @ takeWhile (\<lambda>c. c \<noteq> NUL) w"
    by (intro takeWhile_append2) auto
  then have "cstr (s @ w) = s @ cstr w"
    by (simp only: cstr_def)
  with False show ?thesis
    by (simp only: s w if_False)
qed

lemma MAX_TOKENS_pos: "0 < MAX_TOKENS"
  by (simp add: MAX_TOKENS_def)

lemma parse_line_to_tokens_unfold:
  assumes "tokenize_loop line tokens 0 0 False = (line1, tokens1, count1, ptr1, it1)"
    and "trailing_loop line1
           (if it1 \<and> count1 = MAX_TOKENS then skip_token_loop line1 ptr1 else ptr1)
         = (line3, ptr3)"
  shows "parse_line_to_tokens line tokens =
      (if count1 = MAX_TOKENS \<and> cstr (drop ptr3 line3) \<noteq> [] then Inl E_TOO_MANY_TOKENS
       else Inr count1, line3, tokens1)"
  unfolding parse_line_to_tokens_def assms(1) prod.case Let_def assms(2) cstr_drop_empty_iff
  by simp

lemma tokenize_loop_count_start:
  assumes "tokenize_loop line tokens 0 0 False = (line1, tokens1, count1, ptr1, it1)"
  shows "length (split_ws (cstr line)) < MAX_TOKENS \<Longrightarrow> count1 = length (split_ws (cstr line))"
    and "MAX_TOKENS \<le> length (split_ws (cstr line)) \<Longrightarrow> count1 = MAX_TOKENS \<and> it1
           \<and> pending_tokens True (cstr (drop ptr1 line1))
               = length (split_ws (cstr line)) - MAX_TOKENS"
proof -
  have p: "pending_tokens False (cstr (drop 0 line)) = length (split_ws (cstr line))"
    by (simp only: pending_tokens_all drop_0)
  have z: "(0::nat) \<le> MAX_TOKENS" "0 = MAX_TOKENS \<longrightarrow> False"
    using MAX_TOKENS_pos by simp_all
  note c = tokenize_loop_count[OF assms z, unfolded p add_0]
  show "length (split_ws (cstr line)) < MAX_TOKENS \<Longrightarrow> count1 = length (split_ws (cstr line))"
    using c by blast
  show "MAX_TOKENS \<le> length (split_ws (cstr line)) \<Longrightarrow> count1 = MAX_TOKENS \<and> it1
           \<and> pending_tokens True (cstr (drop ptr1 line1))
               = length (split_ws (cstr line)) - MAX_TOKENS"
    using c by blast
qed

lemma parse_line_to_tokens_fst:
  "fst (parse_line_to_tokens line tokens) =
     (if MAX_TOKENS < length (split_ws (cstr line)) then Inl E_TOO_MANY_TOKENS
      else Inr (length (split_ws (cstr line))))"
proof -
  let ?n = "length (split_ws (cstr line))"
  obtain line1 tokens1 count1 ptr1 it1
    where tl: "tokenize_loop line tokens 0 0 False = (line1, tokens1, count1, ptr1, it1)"
    using prod_cases5 by blast
  obtain line3 ptr3
    where tr: "trailing_loop line1
           (if it1 \<and> count1 = MAX_TOKENS then skip_token_loop line1 ptr1 else ptr1)
         = (line3, ptr3)"
    using prod.exhaust by blast
  have res: "fst (parse_line_to_tokens line tokens) =
      (if count1 = MAX_TOKENS \<and> cstr (drop ptr3 line3) \<noteq> [] then Inl E_TOO_MANY_TOKENS
       else Inr count1)"
    by (simp only: parse_line_to_tokens_unfold[OF tl tr] fst_conv)
  show ?thesis
  proof (cases "?n < MAX_TOKENS")
    case True
    then have "count1 = ?n"
      by (rule tokenize_loop_count_start(1)[OF tl])
    with True res show ?thesis by simp
  next
    case False
    then have "MAX_TOKENS \<le> ?n" by simp
    from tokenize_loop_count_start(2)[OF tl this]
    have c1: "count1 = MAX_TOKENS" and it1: it1
      and p: "pending_tokens True (cstr (drop ptr1 line1)) = ?n - MAX_TOKENS"
      by blast+
    from tr c1 it1 have tr': "trailing_loop line1 (skip_token_loop line1 ptr1) = (line3, ptr3)"
      by simp
    have "cstr (drop ptr3 line3)
        = dropWhile IS_WHITESPACE (dropWhile (\<lambda>c. \<not> IS_WHITESPACE c) (cstr (drop ptr1 line1)))"
      by (simp only: trailing_loop_spec[OF tr'] skip_token_loop_spec)
    then have "cstr (drop ptr3 line3) = [] \<longleftrightarrow> pending_tokens True (cstr (drop ptr1 line1)) = 0"
      by (simp add: pending_tokens_def split_ws_empty_iff)
    with p have "cstr (drop ptr3 line3) \<noteq> [] \<longleftrightarrow> MAX_TOKENS < ?n"
      by linarith
    with False c1 res show ?thesis
      by simp
  qed
qed

lemma drop_tokens_Nil [simp]: "drop_tokens n [] = []"
  by (induction n) simp_all

lemma more_tokens_iff:
  "n < length (split_ws s) \<longleftrightarrow> \<not> list_all IS_WHITESPACE (drop_tokens n s)"
proof (induction n arbitrary: s)
  case 0
  have "0 < length (split_ws s) \<longleftrightarrow> split_ws s \<noteq> []"
    by simp
  also have "\<dots> \<longleftrightarrow> \<not> list_all IS_WHITESPACE s"
    by (simp add: split_ws_empty_iff list_all_iff)
  finally show ?case
    by simp
next
  case (Suc n)
  show ?case
  proof (cases "dropWhile IS_WHITESPACE s")
    case Nil
    have "split_ws s = []"
      using Nil by (simp only: split_ws_empty_iff)
    moreover have "drop_tokens (Suc n) s = []"
      by (simp only: drop_tokens.simps Nil dropWhile.simps drop_tokens_Nil)
    ultimately show ?thesis
      by simp
  next
    case (Cons c t)
    then have nws: "\<not> IS_WHITESPACE c"
      using hd_dropWhile[of IS_WHITESPACE s] by simp
    have "split_ws s = split_ws (c # t)"
      using split_ws_dropWhile[of s] by (simp only: Cons)
    then have len: "length (split_ws s)
        = Suc (length (split_ws (dropWhile (\<lambda>c. \<not> IS_WHITESPACE c) t)))"
      using nws by (simp add: split_ws_token)
    have "drop_tokens (Suc n) s = drop_tokens n (dropWhile (\<lambda>c. \<not> IS_WHITESPACE c) t)"
      using nws by (simp add: Cons)
    with Suc.IH[of "dropWhile (\<lambda>c. \<not> IS_WHITESPACE c) t"] len show ?thesis
      by simp
  qed
qed

text \<open>
  C7.  Tokenization fails, with \<open>E_TOO_MANY_TOKENS\<close>, exactly when something other than
  whitespace is left behind the first \<open>MAX_TOKENS\<close> tokens of the line, that is, when the
  line holds more than \<open>MAX_TOKENS\<close> tokens; otherwise it succeeds and reports the number
  of tokens.  Whitespace
  appended to a line changes nothing: a line of exactly \<open>MAX_TOKENS\<close> tokens followed by
  whitespace succeeds.
\<close>

theorem parse_line_to_tokens_too_many:
  "(fst (parse_line_to_tokens line tokens) = Inl E_TOO_MANY_TOKENS
      \<longleftrightarrow> \<not> list_all IS_WHITESPACE (drop_tokens MAX_TOKENS (cstr line)))
   \<and> fst (parse_line_to_tokens line tokens) =
       (if MAX_TOKENS < length (split_ws (cstr line)) then Inl E_TOO_MANY_TOKENS
        else Inr (length (split_ws (cstr line))))
   \<and> (list_all IS_WHITESPACE w \<longrightarrow>
        fst (parse_line_to_tokens (line @ w) tokens) = fst (parse_line_to_tokens line tokens))"
proof (intro conjI)
  show "fst (parse_line_to_tokens line tokens) = Inl E_TOO_MANY_TOKENS
      \<longleftrightarrow> \<not> list_all IS_WHITESPACE (drop_tokens MAX_TOKENS (cstr line))"
    by (simp only: parse_line_to_tokens_fst more_tokens_iff[symmetric]) simp
  show "fst (parse_line_to_tokens line tokens) =
       (if MAX_TOKENS < length (split_ws (cstr line)) then Inl E_TOO_MANY_TOKENS
        else Inr (length (split_ws (cstr line))))"
    by (rule parse_line_to_tokens_fst)
  have "split_ws (cstr (line @ w)) = split_ws (cstr line)" if "list_all IS_WHITESPACE w"
    using that by (simp add: cstr_append_ws split_ws_append_ws)
  then show "list_all IS_WHITESPACE w \<longrightarrow>
        fst (parse_line_to_tokens (line @ w) tokens) = fst (parse_line_to_tokens line tokens)"
    by (simp only: parse_line_to_tokens_fst) simp
qed

lemmas token_eval =
  split_ws_ws split_ws_token IS_WHITESPACE_def cstr_def NUL_def MAX_TOKENS_def

theorem parse_line_to_tokens_too_many_witness:
  "fst (parse_line_to_tokens ''a b c d e f g hh'' (replicate 8 None)) = Inr 8
   \<and> fst (parse_line_to_tokens (''a b c d e f g hh'' @ ''  '') (replicate 8 None)) = Inr 8
   \<and> fst (parse_line_to_tokens ''a b c d e f g hh  i'' (replicate 8 None)) = Inl E_TOO_MANY_TOKENS
   \<and> fst (parse_line_to_tokens ''   '' (replicate 8 None)) = Inr 0"
proof -
  note t = parse_line_to_tokens_too_many
  have 1: "fst (parse_line_to_tokens ''a b c d e f g hh'' (replicate 8 None)) = Inr 8"
    using t[of "''a b c d e f g hh''" "replicate 8 None" "[]"] by (simp add: token_eval)
  have w: "list_all IS_WHITESPACE ''  ''"
    by (simp add: IS_WHITESPACE_def)
  have 2: "fst (parse_line_to_tokens (''a b c d e f g hh'' @ ''  '') (replicate 8 None))
      = fst (parse_line_to_tokens ''a b c d e f g hh'' (replicate 8 None))"
    using t[of "''a b c d e f g hh''" "replicate 8 None" "''  ''"] w by blast
  have 3: "fst (parse_line_to_tokens ''a b c d e f g hh  i'' (replicate 8 None)) = Inl E_TOO_MANY_TOKENS"
    using t[of "''a b c d e f g hh  i''" "replicate 8 None" "[]"] by (simp add: token_eval)
  have 4: "fst (parse_line_to_tokens ''   '' (replicate 8 None)) = Inr 0"
    using t[of "''   ''" "replicate 8 None" "[]"] by (simp add: token_eval)
  from 1 2 3 4 show ?thesis
    by simp
qed

















section \<open>The dispatcher\<close>



lemma lookup_signature_by_hash_None:
  "lookup_signature_by_hash table h = None \<longleftrightarrow> (\<forall>sig \<in> set table. hash_u32 sig \<noteq> h)"
  by (induction table) auto

lemma lookup_signature_by_hash_Some:
  "lookup_signature_by_hash table h = Some sig \<Longrightarrow> sig \<in> set table \<and> hash_u32 sig = h"
  by (induction table) (auto split: if_splits)
















text \<open>
  The tokenizer writes to the local line buffer only: up to a store behind the scratch
  array, every other object of the store is as it was.
\<close>

lemma dispatch_frame:
  "store_after (ce_dispatch_from_line sg table invoke mem line_str) (CALLER k) = mem (CALLER k)"
  by (simp add: ce_dispatch_from_line_def Let_def
      split: option.splits prod.splits sum.splits)

section \<open>Dispatch: the claims\<close>




section \<open>The scratch buffer\<close>

text \<open>
  Up to the first store behind the array, \<open>used\<close> counts the bytes decoded so far and
  stays within the array: a call of \<open>parse_value_by_type\<close> that starts within it either
  ends there too or is a call that stores behind it.
\<close>

lemma parse_value_by_type_binary:
  assumes "used scratch + hex_stores (Some (drop p line)) MAX_ARG_CONTENT_SIZE
             \<le> MAX_ARG_CONTENT_SIZE"
  shows "parse_value_by_type TYPE_UINT8_PTR_e line (Some p) v scratch =
     (let r = parse_hex_string (Some (drop p line)) (array_memory (buffer scratch))
                (Some (used scratch)) MAX_ARG_CONTENT_SIZE (Some 0);
          scratch' = scratch\<lparr>buffer := memory_array (fst (snd r)) MAX_ARG_CONTENT_SIZE\<rparr>
      in if fst r
         then (Inr True, ARG_bytes_u8p (used scratch),
               scratch'\<lparr>used := used scratch + hex_stores (Some (drop p line)) MAX_ARG_CONTENT_SIZE\<rparr>)
         else (Inr False, v, scratch'))"
proof (cases "parse_hex_string (Some (drop p line)) (array_memory (buffer scratch))
                (Some (used scratch)) MAX_ARG_CONTENT_SIZE (Some 0)")
  case (fields ok mem ol)
  show ?thesis
  proof (cases ok)
    case True
    with fields have "fst (parse_hex_string (Some (drop p line)) (array_memory (buffer scratch))
                (Some (used scratch)) MAX_ARG_CONTENT_SIZE (Some 0))"
      by simp
    from hex_stores_ok[OF this] fields
    have "ol = Some (hex_stores (Some (drop p line)) MAX_ARG_CONTENT_SIZE)"
      by simp
    with True fields assms show ?thesis
      by (simp add: parse_value_by_type_def Let_def)
  next
    case False
    with fields assms show ?thesis
      by (simp add: parse_value_by_type_def Let_def)
  qed
qed

lemma parse_value_by_type_used:
  assumes "parse_value_by_type ty line tok v scratch = (r, v', scratch')"
    and "used scratch \<le> MAX_ARG_CONTENT_SIZE"
  shows "used scratch' \<le> MAX_ARG_CONTENT_SIZE"
proof (cases "ty = TYPE_UINT8_PTR_e \<and> tok \<noteq> None")
  case False
  with assms(1) have "scratch' = scratch"
    by (cases ty; cases tok)
       (auto simp: parse_value_by_type_def Let_def split: prod.splits bool.splits option.splits)
  with assms(2) show ?thesis
    by simp
next
  case True
  then obtain p where ty: "ty = TYPE_UINT8_PTR_e" and tok: "tok = Some p"
    by auto
  show ?thesis
  proof (cases "used scratch + hex_stores (Some (drop p line)) MAX_ARG_CONTENT_SIZE
                  \<le> MAX_ARG_CONTENT_SIZE")
    case True
    from assms(1) show ?thesis
      unfolding ty tok parse_value_by_type_binary[OF True]
      using True assms(2) by (auto simp: Let_def split: if_splits)
  next
    case False
    with assms(1) have "scratch' = scratch"
      by (simp add: ty tok parse_value_by_type_def Let_def)
    with assms(2) show ?thesis
      by simp
  qed
qed

lemma parse_arguments_loop_used:
  "parse_arguments_loop sig line tokens_ca i args scratch = (r, args', scratch') \<Longrightarrow>
   used scratch \<le> MAX_ARG_CONTENT_SIZE \<Longrightarrow> used scratch' \<le> MAX_ARG_CONTENT_SIZE"
proof (induction sig line tokens_ca i args scratch rule: parse_arguments_loop.induct)
  case (1 sig line tokens_ca i out_args_a scratch)
  show ?case
  proof (cases "i < unat (type_count_u8 sig) \<and> \<not> (length tokens_ca \<le> i + ARG_OFFSET
        \<or> length (types_e sig) \<le> i \<or> length out_args_a \<le> i)
        \<and> tokens_ca ! (i + ARG_OFFSET) \<noteq> None")
    case False
    with "1.prems"(1) have "scratch' = scratch"
      by (subst (asm) parse_arguments_loop.simps) (auto split: if_splits option.splits)
    with "1.prems"(2) show ?thesis
      by simp
  next
    case True
    then obtain token_cp where lt: "i < unat (type_count_u8 sig)"
      and nb: "\<not> (length tokens_ca \<le> i + ARG_OFFSET \<or> length (types_e sig) \<le> i
                 \<or> length out_args_a \<le> i)"
      and tk: "tokens_ca ! (i + ARG_OFFSET) = Some token_cp"
      by auto
    obtain x v s1 where pv: "parse_value_by_type (types_e sig ! i) line (Some token_cp)
        (out_args_a ! i) scratch = (x, v, s1)"
      using prod_cases3 by blast
    from parse_value_by_type_used[OF pv "1.prems"(2)]
    have s1: "used s1 \<le> MAX_ARG_CONTENT_SIZE" .
    show ?thesis
    proof (cases "x = Inr True")
      case False
      with "1.prems"(1) lt nb tk pv have "scratch' = s1"
        by (subst (asm) parse_arguments_loop.simps) (cases x; auto split: bool.splits)
      with s1 show ?thesis
        by simp
    next
      case t: True
      with "1.prems"(1) lt nb tk pv
      have "parse_arguments_loop sig line tokens_ca (i + 1) (out_args_a[i := v]) s1
          = (r, args', scratch')"
        by (subst (asm) parse_arguments_loop.simps) simp
      from "1.IH"[OF lt nb tk pv[symmetric] t refl refl this s1] show ?thesis .
    qed
  qed
qed

lemma scratch_within_capacity:
  "used (scratch_after (ce_dispatch_from_line sg table invoke mem line_str))
     \<le> MAX_ARG_CONTENT_SIZE"
proof -
  have pa: "used s' \<le> MAX_ARG_CONTENT_SIZE"
    if "parse_arguments sig_pst line toks args
          \<lparr>buffer = replicate MAX_ARG_CONTENT_SIZE 0, used = 0\<rparr> = (r, args', s')"
    for sig_pst line toks args r args' s'
    using that parse_arguments_loop_used[of _ line toks 0 args
        "\<lparr>buffer = replicate MAX_ARG_CONTENT_SIZE 0, used = 0\<rparr>" r args' s']
    by (auto simp: parse_arguments_def split: option.splits if_splits)
  have dc: "used s' \<le> MAX_ARG_CONTENT_SIZE"
    if "dispatch_command invoke sig_pst line toks = (r, args', s', calls)"
    for sig_pst line toks r args' s' calls
    using that pa[of sig_pst line toks "replicate MAX_TOKENS ARG_ZERO"]
    by (auto simp: dispatch_command_def Let_def split: option.splits prod.splits sum.splits if_splits)
  show ?thesis
    using dc
    by (auto simp: ce_dispatch_from_line_def Let_def
        split: option.splits prod.splits sum.splits if_splits)
qed

lemma overrun_length: "length overrun_line = 219"
  by code_simp

lemma overrun_validated:
  "first_failure True demo_table (\<lambda>_. overrun_line) (Some 0) = None"
  by code_simp

lemma overrun_returned:
  "returned (ce_dispatch_from_line True demo_table always_ok (\<lambda>_. overrun_line) (Some 0))
     = Inl (E_STORE_OUT_OF_BOUNDS 95)"
  by code_simp

lemma overrun_used:
  "used (scratch_after
     (ce_dispatch_from_line True demo_table always_ok (\<lambda>_. overrun_line) (Some 0))) = 32"
  by code_simp

lemma overrun_line_buf:
  "cstr (store_after
     (ce_dispatch_from_line True demo_table always_ok (\<lambda>_. overrun_line) (Some 0)) LINE_BUF)
     = ''cat_mixed''"
  by code_simp

lemma overrun_stores:
  "hex_stores (Some (concat (replicate 64 ''CD''))) MAX_ARG_CONTENT_SIZE = 64"
  by code_simp

lemma overrun_store:
  "parse_hex_string (Some (concat (replicate 64 ''CD''))) mem (Some 32) MAX_ARG_CONTENT_SIZE
     (Some 0) = (True, store_bytes mem 32 (replicate 64 0xCD), Some 64)"
proof -
  have c: "cstr (concat (replicate 64 ''CD'')) = concat (replicate 64 ''CD'')"
    by code_simp
  have h: "hex_string MAX_ARG_CONTENT_SIZE (concat (replicate 64 ''CD''))"
    by code_simp
  have b: "hex_bytes (concat (replicate 64 ''CD'')) = replicate 64 0xCD"
    by code_simp
  have l: "length (concat (replicate 64 ''CD'')) div 2 = 64"
    by code_simp
  from h have "hex_string MAX_ARG_CONTENT_SIZE (cstr (concat (replicate 64 ''CD'')))"
    by (simp only: c)
  from parse_hex_string_ok[OF this, of mem 32 0] show ?thesis
    by (simp only: c b l)
qed

text \<open>
  C8 fails on the code.  The tokenizer writes to the local copy \<open>line_buf\<close> only, but hex
  decoding does not stay in the scratch buffer.  On \<open>overrun_line\<close>, a line of 219
  characters for the demo command \<open>cat_mixed\<close> that passes every validation step, the
  first binary argument takes 32 of the 64 bytes of \<open>scratch.buffer\<close>.  For the second,
  \<open>parse_hex_string\<close> is called with \<open>out_buf = scratch.buffer + 32\<close> and the maximum
  \<open>MAX_ARG_CONTENT_SIZE\<close>; it returns true and stores 64 bytes, to the offsets 32 to 95
  from \<open>scratch.buffer\<close>: the last 32 of them are stored behind the array, over the member
  \<open>used\<close> and over what follows the local structure.  Up to that call the caller's line
  is as it was and the local copy has been split after \<open>cat_mixed\<close>.
\<close>

theorem hex_decoding_leaves_scratch_buffer:
  "length overrun_line = 219
   \<and> MAX_ARG_CONTENT_SIZE = 64
   \<and> first_failure True demo_table (\<lambda>_. overrun_line) (Some 0) = None
   \<and> returned (ce_dispatch_from_line True demo_table always_ok (\<lambda>_. overrun_line) (Some 0))
       = Inl (E_STORE_OUT_OF_BOUNDS 95)
   \<and> used (scratch_after
        (ce_dispatch_from_line True demo_table always_ok (\<lambda>_. overrun_line) (Some 0))) = 32
   \<and> hex_stores (Some (concat (replicate 64 ''CD''))) MAX_ARG_CONTENT_SIZE = 64
   \<and> parse_hex_string (Some (concat (replicate 64 ''CD''))) m (Some 32) MAX_ARG_CONTENT_SIZE
         (Some 0) = (True, store_bytes m 32 (replicate 64 0xCD), Some 64)
   \<and> store_after
         (ce_dispatch_from_line True demo_table always_ok (\<lambda>_. overrun_line) (Some 0)) (CALLER 0)
       = overrun_line
   \<and> cstr (store_after
         (ce_dispatch_from_line True demo_table always_ok (\<lambda>_. overrun_line) (Some 0)) LINE_BUF)
       = ''cat_mixed''"
proof -
  have "MAX_ARG_CONTENT_SIZE = 64"
    by (simp add: MAX_ARG_CONTENT_SIZE_def)
  moreover have "store_after
      (ce_dispatch_from_line True demo_table always_ok (\<lambda>_. overrun_line) (Some 0)) (CALLER 0)
      = overrun_line"
    using dispatch_frame[where sg=True and table=demo_table and invoke=always_ok
        and mem="\<lambda>_. overrun_line" and line_str="Some 0" and k=0]
    by simp
  ultimately show ?thesis
    by (intro conjI overrun_length overrun_validated overrun_returned overrun_used
        overrun_stores overrun_store overrun_line_buf)
qed

lemma overflow_validated:
  "first_failure True demo_table (\<lambda>_. overflow_line) (Some 0) = None"
  by code_simp

lemma overflow_returned:
  "returned (ce_dispatch_from_line True demo_table always_ok (\<lambda>_. overflow_line) (Some 0))
     = Inl (E_STORE_OUT_OF_BOUNDS 64)"
  by code_simp

lemma overflow_first_argument:
  "args_after (ce_dispatch_from_line True demo_table always_ok (\<lambda>_. overflow_line) (Some 0)) ! 0
     = ARG_bytes_u8p 0"
  by code_simp

lemma overflow_buffer:
  "buffer (scratch_after
     (ce_dispatch_from_line True demo_table always_ok (\<lambda>_. overflow_line) (Some 0)))
     = replicate 64 0xAB"
  by code_simp

lemma overflow_used:
  "used (scratch_after
     (ce_dispatch_from_line True demo_table always_ok (\<lambda>_. overflow_line) (Some 0))) = 64"
  by code_simp

lemma overflow_store:
  "parse_hex_string (Some ''FF'') mem (Some 64) MAX_ARG_CONTENT_SIZE (Some 0)
     = (True, mem(64 := 0xFF), Some 1)"
proof -
  have h: "hex_string MAX_ARG_CONTENT_SIZE (cstr ''FF'')"
    by (simp add: hex_eval MAX_ARG_CONTENT_SIZE_def)
  have "store_bytes mem 64 (hex_bytes (cstr ''FF'')) = mem(64 := 0xFF)"
    by (auto simp: hex_eval store_bytes_def fun_eq_iff)
  with parse_hex_string_ok[OF h, of mem 64 0] show ?thesis
    by (simp add: cstr_def NUL_def)
qed

text \<open>
  C1 fails on the code.  \<open>parse_value_by_type\<close> hands \<open>parse_hex_string\<close> the address
  \<open>scratch->buffer + scratch->used\<close> with the maximum \<open>MAX_ARG_CONTENT_SIZE\<close>, not with what
  is left of the array.  Up to the first call that stores behind the array, \<open>used\<close> is the
  number of bytes decoded and is at most \<open>MAX_ARG_CONTENT_SIZE\<close>; but such a call is
  reached.  On \<open>overflow_line\<close>, a line of 157 characters for the demo command \<open>cat_mixed\<close>
  that passes every validation step, the first binary argument is decoded to offset 0 and
  fills the 64 bytes of the array, so that \<open>used\<close> is 64.  For the second,
  \<open>parse_hex_string\<close> is called with \<open>out_buf = scratch.buffer + 64\<close> and the maximum 64: it
  returns true and stores the byte \<open>0xFF\<close> to \<open>scratch.buffer[64]\<close>, behind the array, which
  makes 65 decoded bytes.
\<close>

theorem scratch_buffer_overflow:
  "used (scratch_after (ce_dispatch_from_line sg table invoke mem line_str))
     \<le> MAX_ARG_CONTENT_SIZE
   \<and> length overflow_line = 157
   \<and> MAX_ARG_CONTENT_SIZE = 64
   \<and> first_failure True demo_table (\<lambda>_. overflow_line) (Some 0) = None
   \<and> returned (ce_dispatch_from_line True demo_table always_ok (\<lambda>_. overflow_line) (Some 0))
       = Inl (E_STORE_OUT_OF_BOUNDS 64)
   \<and> args_after (ce_dispatch_from_line True demo_table always_ok (\<lambda>_. overflow_line) (Some 0)) ! 0
       = ARG_bytes_u8p 0
   \<and> buffer (scratch_after
        (ce_dispatch_from_line True demo_table always_ok (\<lambda>_. overflow_line) (Some 0)))
       = replicate 64 0xAB
   \<and> used (scratch_after
        (ce_dispatch_from_line True demo_table always_ok (\<lambda>_. overflow_line) (Some 0))) = 64
   \<and> parse_hex_string (Some ''FF'') m (Some 64) MAX_ARG_CONTENT_SIZE (Some 0)
       = (True, m(64 := 0xFF), Some 1)"
proof -
  have "length overflow_line = 157"
    by code_simp
  moreover have "MAX_ARG_CONTENT_SIZE = 64"
    by (simp add: MAX_ARG_CONTENT_SIZE_def)
  ultimately show ?thesis
    by (intro conjI scratch_within_capacity overflow_validated overflow_returned
        overflow_first_argument overflow_buffer overflow_used overflow_store)
qed

end
